theory Spec2Isabelle
  imports Main
begin

section \<open>The substitution of \<^verbatim>\<open>fix_html\<close>\<close>

text \<open>
  \<^verbatim>\<open>scripts/fix-web-export.py\<close> rewrites the entry script tags of an exported web site:
  \<^verbatim>\<open>
  new = re.sub(
      r'<script src="([^"]+)" defer>',
      r'<script type="module" src="\1" defer>',
      content,
  )
  \<close>
  A Python \<^verbatim>\<open>str\<close> is modelled as a \<^typ>\<open>string\<close>. The pattern tells characters apart only by
  comparing them with the ASCII characters it names, and the text it inserts is ASCII.
\<close>

subsection \<open>One match attempt\<close>

text \<open>
  \<open>drop_literal p s\<close> matches the literal text \<open>p\<close> at the start of \<open>s\<close> and returns what
  follows it.
\<close>

fun drop_literal :: "string \<Rightarrow> string \<Rightarrow> string option" where
  "drop_literal [] s = Some s"
| "drop_literal (p # ps) [] = None"
| "drop_literal (p # ps) (c # cs) = (if c = p then drop_literal ps cs else None)"

text \<open>The character class \<^verbatim>\<open>[^"]\<close>: any character but the double quote, newlines included.\<close>

definition not_quote :: "char \<Rightarrow> bool" where
  \<open>not_quote c = (c \<noteq> CHR ''"'')\<close>

text \<open>
  \<open>match_at s\<close> is the attempt of the regular expression at the first position of \<open>s\<close>: the
  literal \<^verbatim>\<open><script src="\<close>, then the greedy group \<^verbatim>\<open>([^"]+)\<close>, then the literal
  \<^verbatim>\<open>" defer>\<close>. The group takes every character up to the next double quote and must take
  at least one. Giving characters back cannot help (the next pattern character is the
  double quote, and every character given back is not one), so the greedy choice is the
  only candidate. The result is the captured group and the text after the match.
\<close>

definition match_at :: "string \<Rightarrow> (string \<times> string) option" where
  \<open>match_at s =
     (case drop_literal ''<script src="'' s of
        None \<Rightarrow> None
      | Some t \<Rightarrow>
          (let url = takeWhile not_quote t
           in if url = [] then None
              else (case drop_literal ''" defer>'' (dropWhile not_quote t) of
                      None \<Rightarrow> None
                    | Some rest \<Rightarrow> Some (url, rest))))\<close>

text \<open>The replacement template \<^verbatim>\<open><script type="module" src="\1" defer>\<close>, with group 1 filled in.\<close>

definition expand :: "string \<Rightarrow> string" where
  \<open>expand url = ''<script type="module" src="'' @ url @ ''" defer>''\<close>

lemma drop_literal_iff: "drop_literal p s = Some t \<longleftrightarrow> s = p @ t"
  by (induction p s rule: drop_literal.induct) auto

lemma split_at_quote:
  \<open>CHR ''"'' \<notin> set u \<Longrightarrow>
     takeWhile not_quote (u @ CHR ''"'' # r) = u \<and>
     dropWhile not_quote (u @ CHR ''"'' # r) = CHR ''"'' # r\<close>
  by (induction u) (auto simp: not_quote_def)

text \<open>
  The attempt succeeds exactly on the texts of the pattern's language, and the split into
  captured group and remainder is the only one there is.
\<close>

lemma match_at_iff:
  \<open>match_at s = Some (u, r) \<longleftrightarrow>
     s = ''<script src="'' @ u @ ''" defer>'' @ r \<and> u \<noteq> [] \<and> CHR ''"'' \<notin> set u\<close>
proof
  assume m: "match_at s = Some (u, r)"
  then obtain t where t: \<open>s = ''<script src="'' @ t\<close>
    and u: "u = takeWhile not_quote t" "u \<noteq> []"
    and r: \<open>dropWhile not_quote t = ''" defer>'' @ r\<close>
    by (auto simp: match_at_def Let_def drop_literal_iff split: option.splits if_splits)
  have "t = u @ dropWhile not_quote t" using u by simp
  moreover have \<open>CHR ''"'' \<notin> set u\<close>
    using u by (auto simp: not_quote_def dest: set_takeWhileD)
  ultimately show \<open>s = ''<script src="'' @ u @ ''" defer>'' @ r \<and> u \<noteq> [] \<and> CHR ''"'' \<notin> set u\<close>
    using t u r by simp
next
  assume a: \<open>s = ''<script src="'' @ u @ ''" defer>'' @ r \<and> u \<noteq> [] \<and> CHR ''"'' \<notin> set u\<close>
  then have d: \<open>drop_literal ''<script src="'' s = Some (u @ ''" defer>'' @ r)\<close>
    by (simp only: drop_literal_iff)
  from a have \<open>takeWhile not_quote (u @ CHR ''"'' # '' defer>'' @ r) = u\<close>
    \<open>dropWhile not_quote (u @ CHR ''"'' # '' defer>'' @ r) = CHR ''"'' # '' defer>'' @ r\<close>
    using split_at_quote by blast+
  then show "match_at s = Some (u, r)"
    using a d by (simp add: match_at_def Let_def)
qed

lemma match_at_shorter: "match_at s = Some (u, r) \<Longrightarrow> length r < length s"
  by (simp add: match_at_iff)

lemma match_at_not_lt: \<open>c \<noteq> CHR ''<'' \<Longrightarrow> match_at (c # s) = None\<close>
  by (simp add: match_at_def)

subsection \<open>The scan of \<^verbatim>\<open>re.sub\<close>\<close>

text \<open>
  \<^verbatim>\<open>re.sub\<close> scans the content from left to right. Where the pattern matches, the match is
  replaced by the expanded template and the scan goes on after the match; where it does
  not, the character is copied and the scan moves one character on. The pattern matches
  no empty text, so matches never touch.
\<close>

function re_sub :: "string \<Rightarrow> string" where
  "re_sub [] = []"
| "re_sub (c # cs) =
     (case match_at (c # cs) of
        Some (url, rest) \<Rightarrow> expand url @ re_sub rest
      | None \<Rightarrow> c # re_sub cs)"
  by pat_completeness auto
termination
  by (relation "measure length") (auto dest: match_at_shorter)

text \<open>
  The groups captured by the successive matches of the same scan, in order: what
  \<^verbatim>\<open>re.findall\<close> returns for the pattern. Its length is the number of replacements.
\<close>

function re_findall :: "string \<Rightarrow> string list" where
  "re_findall [] = []"
| "re_findall (c # cs) =
     (case match_at (c # cs) of
        Some (url, rest) \<Rightarrow> url # re_findall rest
      | None \<Rightarrow> re_findall cs)"
  by pat_completeness auto
termination
  by (relation "measure length") (auto dest: match_at_shorter)

text \<open>Python's \<^verbatim>\<open>str.endswith\<close>.\<close>

definition endswith :: "string \<Rightarrow> string \<Rightarrow> bool" where
  "endswith s suf = (length suf \<le> length s \<and> drop (length s - length suf) s = suf)"

lemma endswith_iff: "endswith s suf \<longleftrightarrow> (\<exists>a. s = a @ suf)"
  unfolding endswith_def
  by (metis append_eq_conv_conj append_take_drop_id diff_add_inverse2 length_append
      le_add2 length_drop)

subsection \<open>Length of the result\<close>

lemma length_re_sub: "length (re_sub s) = length s + 14 * length (re_findall s)"
proof (induction s rule: re_sub.induct)
  case 1
  show ?case by simp
next
  case (2 c cs)
  show ?case
  proof (cases "match_at (c # cs)")
    case None
    with 2 show ?thesis by simp
  next
    case (Some m)
    obtain u r where m: "m = (u, r)" by (cases m)
    from Some m have "length (c # cs) = length u + length r + 21"
      by (simp add: match_at_iff)
    with 2(2)[OF Some m[symmetric]] Some m show ?thesis
      by (simp add: expand_def)
  qed
qed

lemma re_sub_no_match: "match_at (c # cs) = None \<Longrightarrow> re_sub (c # cs) = c # re_sub cs"
  by simp

lemma re_sub_match:
  assumes "u \<noteq> []" \<open>CHR ''"'' \<notin> set u\<close>
  shows \<open>re_sub (''<script src="'' @ u @ ''" defer>'' @ r) =
          ''<script type="module" src="'' @ u @ ''" defer>'' @ re_sub r\<close>
proof -
  have \<open>match_at (''<script src="'' @ u @ ''" defer>'' @ r) = Some (u, r)\<close>
    using assms by (simp add: match_at_iff)
  then show ?thesis by (simp add: expand_def)
qed

subsection \<open>A second pass\<close>

lemma re_sub_copy: \<open>CHR ''<'' \<notin> set y \<Longrightarrow> re_sub (y @ t) = y @ re_sub t\<close>
  by (induction y) (auto simp: match_at_not_lt)

lemma re_sub_skip:
  "(\<And>x x'. y = x' @ x \<Longrightarrow> x \<noteq> [] \<Longrightarrow> match_at (x @ t) = None) \<Longrightarrow>
     re_sub (y @ t) = y @ re_sub t"
proof (induction y)
  case Nil
  show ?case by simp
next
  case (Cons c y)
  have "match_at ((c # y) @ t) = None" using Cons.prems[of "[]" "c # y"] by simp
  moreover have "re_sub (y @ t) = y @ re_sub t"
    by (rule Cons.IH) (use Cons.prems in \<open>metis append_Cons\<close>)
  ultimately show ?case by simp
qed

lemma append_eq_appendE:
  "a @ b = c @ d \<Longrightarrow> \<exists>z. (a = c @ z \<and> z @ b = d) \<or> (a @ z = c \<and> b = z @ d)"
  by (simp only: append_eq_append_conv2)

lemma first_sep_unique:
  "q \<notin> set a \<Longrightarrow> q \<notin> set b \<Longrightarrow> a @ q # x = b @ q # y \<Longrightarrow> a = b \<and> x = y"
proof (induction a arbitrary: b)
  case Nil
  then show ?case by (cases b) auto
next
  case (Cons c a)
  then show ?case by (cases b) auto
qed

lemma suffix_starts_in: "a @ w = b \<Longrightarrow> w \<noteq> [] \<Longrightarrow> hd w \<in> set b"
  by (cases w) auto

lemma proper_suffix_starts_in:
  "a @ w = c # b \<Longrightarrow> a \<noteq> [] \<Longrightarrow> w \<noteq> [] \<Longrightarrow> hd w \<in> set b"
  by (cases a; cases w) auto

text \<open>
  Inside a rewritten tag, after its opening text, a match can only start in the URL, and
  then the URL ends with \<^verbatim>\<open><script src=\<close>: the double quote that closes the URL is the one
  the pattern's opening literal needs.
\<close>

lemma no_match_in_tail:
  assumes u: \<open>CHR ''"'' \<notin> set u\<close> and e: \<open>\<not> endswith u ''<script src=''\<close>
    and x: \<open>u @ ''" defer>'' = x' @ x\<close> "x \<noteq> []"
  shows "match_at (x @ t) = None"
proof -
  from append_eq_appendE[OF x(1)] obtain z
    where z: \<open>(u = x' @ z \<and> z @ ''" defer>'' = x) \<or> (u @ z = x' \<and> ''" defer>'' = z @ x)\<close>
    by blast
  then show ?thesis
  proof
    assume a: \<open>u = x' @ z \<and> z @ ''" defer>'' = x\<close>
    show ?thesis
    proof (rule ccontr)
      assume "match_at (x @ t) \<noteq> None"
      then obtain v r where m: \<open>x @ t = ''<script src="'' @ v @ ''" defer>'' @ r\<close>
        by (auto simp: match_at_iff)
      have eq: \<open>z @ CHR ''"'' # ('' defer>'' @ t) =
                ''<script src='' @ CHR ''"'' # (v @ ''" defer>'' @ r)\<close>
        using a m by auto
      have zq: \<open>CHR ''"'' \<notin> set z\<close> using a u by simp
      have nq: \<open>CHR ''"'' \<notin> set ''<script src=''\<close> by simp
      from first_sep_unique[OF zq nq eq] have \<open>z = ''<script src=''\<close> by (rule conjunct1)
      with a e show False by (simp add: endswith_iff)
    qed
  next
    assume a: \<open>u @ z = x' \<and> ''" defer>'' = z @ x\<close>
    then have \<open>hd x \<in> set ''" defer>''\<close> using suffix_starts_in[of z x, OF _ x(2)] by simp
    then have \<open>hd x \<noteq> CHR ''<''\<close> by auto
    then show ?thesis using x(2) by (cases x) (auto simp: match_at_not_lt)
  qed
qed

lemma re_sub_new_tag:
  assumes \<open>CHR ''"'' \<notin> set u\<close> \<open>\<not> endswith u ''<script src=''\<close>
  shows "re_sub (expand u @ t) = expand u @ re_sub t"
proof -
  define X where \<open>X = ''script type="module" src="'' @ (u @ ''" defer>'' @ t)\<close>
  have 1: \<open>re_sub ((u @ ''" defer>'') @ t) = (u @ ''" defer>'') @ re_sub t\<close>
    by (rule re_sub_skip) (use assms no_match_in_tail in blast)
  have 2: \<open>re_sub X = ''script type="module" src="'' @ re_sub (u @ ''" defer>'' @ t)\<close>
    unfolding X_def by (rule re_sub_copy) simp
  have e: \<open>expand u @ t = CHR ''<'' # X\<close>
    by (simp add: expand_def X_def)
  have \<open>match_at (CHR ''<'' # X) = None\<close>
    by (simp add: X_def match_at_def)
  then have \<open>re_sub (CHR ''<'' # X) = CHR ''<'' # re_sub X\<close>
    by (rule re_sub_no_match)
  then show ?thesis using 1 2 e by (simp add: expand_def)
qed

text \<open>
  Two texts that share a tail, one starting \<open>K0 @ q # K1\<close> after a prefix \<open>A\<close>, the other
  being \<open>p # P\<close>, a \<open>q\<close>-free \<open>v\<close> and \<open>q # S\<close>: when the first character of \<open>K0\<close> occurs in
  neither literal and \<open>S\<close> cannot continue into \<open>K1\<close>, the second text ends inside \<open>A\<close>.
\<close>

lemma overlap_gen:
  assumes eq: "A @ K0 @ q # K1 = (p # P) @ v @ (q # S) @ r"
    and A: "A \<noteq> []"
    and K0: "K0 \<noteq> []" "hd K0 \<notin> set P" "hd K0 \<notin> set S" "hd K0 \<noteq> q" "q \<notin> set K0"
    and v: "q \<notin> set v"
    and S: "\<And>r. S @ r \<noteq> K1"
  shows "\<exists>w. A = (p # P) @ v @ (q # S) @ w"
proof -
  let ?M = "(p # P) @ v @ (q # S)"
  let ?K = "K0 @ q # K1"
  from eq have "A @ ?K = ?M @ r" by simp
  from append_eq_appendE[OF this] obtain w
    where w: "(A = ?M @ w \<and> w @ ?K = r) \<or> (A @ w = ?M \<and> ?K = w @ r)"
    by blast
  show ?thesis
  proof (cases "w = [] \<or> (A = ?M @ w \<and> w @ ?K = r)")
    case True
    with w show ?thesis by auto
  next
    case False
    with w have w1: "A @ w = ?M" "?K = w @ r" "w \<noteq> []" by auto
    from w1(2,3) K0(1) have hw: "hd w = hd K0" by (cases w; cases K0) auto
    from w1(1) have "A @ w = (p # P) @ (v @ q # S)" by simp
    from append_eq_appendE[OF this] obtain z1 where
      z1: "(A = (p # P) @ z1 \<and> z1 @ w = v @ q # S) \<or> (A @ z1 = p # P \<and> w = z1 @ v @ q # S)"
      by blast
    have first: False if "v @ q # S = z1' @ w" for z1'
    proof -
      from append_eq_appendE[OF that] obtain z2 where
        z2: "(v = z1' @ z2 \<and> z2 @ q # S = w) \<or> (v @ z2 = z1' \<and> q # S = z2 @ w)"
        by blast
      then show False
      proof
        assume a: "v = z1' @ z2 \<and> z2 @ q # S = w"
        then have e: "K0 @ q # K1 = z2 @ q # (S @ r)" using w1(2) by auto
        have nz: "q \<notin> set z2" using a v by simp
        have "K1 = S @ r" by (rule first_sep_unique[OF K0(5) nz e, THEN conjunct2])
        with S[of r] show False by simp
      next
        assume a: "v @ z2 = z1' \<and> q # S = z2 @ w"
        then have "hd w \<in> set (q # S)" using suffix_starts_in[of z2 w, OF _ w1(3)] by simp
        with hw K0 show False by auto
      qed
    qed
    from z1 show ?thesis
    proof
      assume "A = (p # P) @ z1 \<and> z1 @ w = v @ q # S"
      with first[of z1] show ?thesis by simp
    next
      assume a: "A @ z1 = p # P \<and> w = z1 @ v @ q # S"
      show ?thesis
      proof (cases "z1 = []")
        case True
        with a first[of "[]"] show ?thesis by simp
      next
        case False
        with a A have "hd z1 \<in> set P"
          using proper_suffix_starts_in[of A z1 p P] by simp
        moreover have "hd w = hd z1" using a False by simp
        ultimately show ?thesis using hw K0 by simp
      qed
    qed
  qed
qed

lemma match_before_new_tag:
  assumes eq: \<open>A @ expand u @ X = ''<script src="'' @ v @ ''" defer>'' @ r\<close>
    and v: \<open>CHR ''"'' \<notin> set v\<close> and A: "A \<noteq> []"
  shows \<open>\<exists>w. A = ''<script src="'' @ v @ ''" defer>'' @ w\<close>
proof -
  have \<open>A @ ''<script type='' @ CHR ''"'' # (''module" src="'' @ u @ ''" defer>'' @ X)
        = (CHR ''<'' # ''script src="'') @ v @ (CHR ''"'' # '' defer>'') @ r\<close>
    using eq by (simp add: expand_def)
  from overlap_gen[OF this A _ _ _ _ _ v]
  have \<open>\<exists>w. A = (CHR ''<'' # ''script src="'') @ v @ (CHR ''"'' # '' defer>'') @ w\<close>
    by simp
  then show ?thesis by simp
qed

text \<open>
  A position where the first pass found no match has none in the result either: a match
  there would have to end before the first rewritten tag, so it was in the content already.
\<close>

lemma keep_unmatched:
  "A \<noteq> [] \<Longrightarrow> match_at (A @ re_sub cs) \<noteq> None \<Longrightarrow> match_at (A @ cs) \<noteq> None"
proof (induction cs arbitrary: A rule: re_sub.induct)
  case 1
  then show ?case by simp
next
  case (2 c cs)
  show ?case
  proof (cases "match_at (c # cs)")
    case None
    have "match_at ((A @ [c]) @ re_sub cs) \<noteq> None" using 2(4) None by simp
    then have "match_at ((A @ [c]) @ cs) \<noteq> None" using 2(1)[OF None, of "A @ [c]"] by blast
    then show ?thesis by simp
  next
    case (Some m)
    obtain u rest where m: "m = (u, rest)" by (cases m)
    from 2(4) Some m obtain v r
      where vr: \<open>A @ expand u @ re_sub rest = ''<script src="'' @ v @ ''" defer>'' @ r\<close>
        "v \<noteq> []" \<open>CHR ''"'' \<notin> set v\<close>
      by (auto simp: match_at_iff)
    from match_before_new_tag[OF vr(1) vr(3) 2(3)]
    obtain w where \<open>A = ''<script src="'' @ v @ ''" defer>'' @ w\<close> by blast
    then have \<open>match_at (A @ c # cs) = Some (v, w @ c # cs)\<close>
      using vr by (simp add: match_at_iff)
    then show ?thesis by simp
  qed
qed

lemma re_sub_idem:
  \<open>list_all (\<lambda>u. \<not> endswith u ''<script src='') (re_findall s) \<Longrightarrow>
     re_sub (re_sub s) = re_sub s\<close>
proof (induction s rule: re_sub.induct)
  case 1
  show ?case by simp
next
  case (2 c cs)
  show ?case
  proof (cases "match_at (c # cs)")
    case None
    then have "match_at (c # re_sub cs) = None"
      using keep_unmatched[of "[c]" cs] by (cases "match_at (c # re_sub cs)") auto
    then show ?thesis using None 2 by simp
  next
    case (Some m)
    obtain u rest where m: "m = (u, rest)" by (cases m)
    have \<open>CHR ''"'' \<notin> set u\<close> using Some m by (simp add: match_at_iff)
    moreover have \<open>\<not> endswith u ''<script src=''\<close> using 2(3) Some m by simp
    ultimately have "re_sub (expand u @ re_sub rest) = expand u @ re_sub (re_sub rest)"
      by (rule re_sub_new_tag)
    moreover have "re_sub (re_sub rest) = re_sub rest"
      using 2(2)[OF Some m[symmetric]] 2(3) Some m by simp
    ultimately show ?thesis using Some m by simp
  qed
qed

subsection \<open>Changed content and occurrences\<close>

text \<open>
  The substitution changes a content exactly when the pattern occurs in it somewhere:
  the scan then meets a match at or before the first occurrence.
\<close>

lemma re_findall_occurrence:
  \<open>re_findall s \<noteq> [] \<Longrightarrow>
     \<exists>a u b. s = a @ ''<script src="'' @ u @ ''" defer>'' @ b \<and> u \<noteq> [] \<and> CHR ''"'' \<notin> set u\<close>
proof (induction s rule: re_findall.induct)
  case 1
  then show ?case by simp
next
  case (2 c cs)
  show ?case
  proof (cases "match_at (c # cs)")
    case None
    with 2 obtain a u b where \<open>cs = a @ ''<script src="'' @ u @ ''" defer>'' @ b \<and> u \<noteq> [] \<and> CHR ''"'' \<notin> set u\<close>
      by auto
    then have \<open>c # cs = (c # a) @ ''<script src="'' @ u @ ''" defer>'' @ b \<and> u \<noteq> [] \<and> CHR ''"'' \<notin> set u\<close>
      by simp
    then show ?thesis by (intro exI)
  next
    case (Some m)
    obtain u r where "m = (u, r)" by (cases m)
    with Some have "match_at (c # cs) = Some (u, r)" by simp
    note e = match_at_iff[THEN iffD1, OF this]
    then have \<open>c # cs = [] @ ''<script src="'' @ u @ ''" defer>'' @ r \<and> u \<noteq> [] \<and> CHR ''"'' \<notin> set u\<close>
      by simp
    then show ?thesis by (intro exI)
  qed
qed

lemma occurrence_re_findall:
  assumes "u \<noteq> []" \<open>CHR ''"'' \<notin> set u\<close>
  shows \<open>re_findall (a @ ''<script src="'' @ u @ ''" defer>'' @ b) \<noteq> []\<close>
proof (induction a)
  case Nil
  have \<open>match_at (''<script src="'' @ u @ ''" defer>'' @ b) = Some (u, b)\<close>
    using assms by (simp add: match_at_iff)
  then show ?case by simp
next
  case (Cons c a)
  show ?case
  proof (cases \<open>match_at (c # a @ ''<script src="'' @ u @ ''" defer>'' @ b)\<close>)
    case None
    with Cons show ?thesis by simp
  next
    case (Some m)
    then show ?thesis by (cases m) simp
  qed
qed

lemma re_sub_unchanged: "re_findall s = [] \<Longrightarrow> re_sub s = s"
proof (induction s rule: re_sub.induct)
  case 1
  show ?case by simp
next
  case (2 c cs)
  show ?case
  proof (cases "match_at (c # cs)")
    case None
    with 2 show ?thesis by simp
  next
    case (Some m)
    with 2(3) show ?thesis by (cases m) simp
  qed
qed

lemma re_sub_changed: "re_sub s \<noteq> s \<longleftrightarrow> re_findall s \<noteq> []"
proof
  assume "re_sub s \<noteq> s"
  then show "re_findall s \<noteq> []" using re_sub_unchanged by blast
next
  assume "re_findall s \<noteq> []"
  then obtain x xs where "re_findall s = x # xs" by (cases "re_findall s") auto
  then have "length (re_sub s) = length s + 14 * Suc (length xs)" by (simp add: length_re_sub)
  then show "re_sub s \<noteq> s" by auto
qed

lemma re_sub_changed_iff:
  \<open>re_sub s \<noteq> s \<longleftrightarrow>
     (\<exists>a u b. s = a @ ''<script src="'' @ u @ ''" defer>'' @ b \<and> u \<noteq> [] \<and> CHR ''"'' \<notin> set u)\<close>
proof
  assume "re_sub s \<noteq> s"
  then have "re_findall s \<noteq> []" by (rule re_sub_changed[THEN iffD1])
  then show \<open>\<exists>a u b. s = a @ ''<script src="'' @ u @ ''" defer>'' @ b \<and> u \<noteq> [] \<and> CHR ''"'' \<notin> set u\<close>
    by (rule re_findall_occurrence)
next
  assume \<open>\<exists>a u b. s = a @ ''<script src="'' @ u @ ''" defer>'' @ b \<and> u \<noteq> [] \<and> CHR ''"'' \<notin> set u\<close>
  then obtain a u b where s: \<open>s = a @ ''<script src="'' @ u @ ''" defer>'' @ b\<close>
    and u: "u \<noteq> []" \<open>CHR ''"'' \<notin> set u\<close> by blast
  have "re_findall s \<noteq> []" unfolding s by (rule occurrence_re_findall[OF u])
  then show "re_sub s \<noteq> s" by (rule re_sub_changed[THEN iffD2])
qed

section \<open>The file system the script runs on\<close>

text \<open>
  The script reads and writes files below a directory it is given by its path. The file
  system is a tree of directories, regular text files and links. A directory lists its
  entries in the order in which \<^verbatim>\<open>os.scandir\<close> returns them. The content of a file is the
  text that reading it in text mode returns. A link is a further name of a regular file (a
  hard link, or a symbolic link to a file): it holds the names that lead from the root to
  the file. A link whose target is no regular file names nothing; links to directories,
  special files, permissions and decoding errors are outside the model: every regular file
  that exists can be read and written.
\<close>

datatype node = File string | Dir "(string \<times> node) list" | Link "string list"

fun is_dir :: "node \<Rightarrow> bool" where
  "is_dir (Dir es) = True"
| "is_dir (File c) = False"
| "is_dir (Link t) = False"

text \<open>
  The node found from \<open>n\<close> along a list of names, links not followed; the first entry of
  a name counts.
\<close>

fun lookup :: "node \<Rightarrow> string list \<Rightarrow> node option" where
  "lookup n [] = Some n"
| "lookup n (x # xs) =
     (case n of
        File c \<Rightarrow> None
      | Link t \<Rightarrow> None
      | Dir es \<Rightarrow> (case map_of es x of None \<Rightarrow> None | Some child \<Rightarrow> lookup child xs))"

fun update_first :: "string \<Rightarrow> (node \<Rightarrow> node) \<Rightarrow> (string \<times> node) list \<Rightarrow> (string \<times> node) list" where
  "update_first x g [] = []"
| "update_first x g ((name, child) # es) =
     (if name = x then (name, g child) # es else (name, child) # update_first x g es)"

text \<open>The tree with the node at a list of names replaced by its image under \<open>f\<close>.\<close>

fun modify :: "node \<Rightarrow> string list \<Rightarrow> (node \<Rightarrow> node) \<Rightarrow> node" where
  "modify n [] f = f n"
| "modify n (x # xs) f =
     (case n of
        File c \<Rightarrow> File c
      | Link t \<Rightarrow> Link t
      | Dir es \<Rightarrow> Dir (update_first x (\<lambda>child. modify child xs f) es))"

text \<open>
  The state the script acts on: the tree from the root directory \<^verbatim>\<open>/\<close>, the names that
  lead from the root to the current working directory, and the paths opened for writing
  so far, oldest first.
\<close>

record world =
  tree :: node
  cwd :: "string list"
  written :: "string list"

subsection \<open>Path resolution\<close>

text \<open>
  A path is split at its slashes; empty components (doubled or trailing slashes) do not
  count. Resolution starts at the root for a path that begins with a slash and at the
  working directory otherwise, and walks the components: each step needs a directory
  to step from, \<^verbatim>\<open>.\<close> stays, \<^verbatim>\<open>..\<close> goes to the parent (the root is its own parent), a name
  goes to the entry of that name. The empty path names nothing, and a path that ends with
  a slash names directories only.
\<close>

fun split_slash :: "string \<Rightarrow> string list" where
  "split_slash [] = [[]]"
| "split_slash (c # cs) =
     (if c = CHR ''/'' then [] # split_slash cs
      else (case split_slash cs of
              [] \<Rightarrow> [[c]]
            | x # xs \<Rightarrow> (c # x) # xs))"

definition components :: "string \<Rightarrow> string list" where
  "components p = filter (\<lambda>x. x \<noteq> []) (split_slash p)"

fun descend :: "node \<Rightarrow> string list \<Rightarrow> string list \<Rightarrow> string list option" where
  "descend r stk [] = Some stk"
| "descend r stk (c # cs) =
     (case lookup r stk of
        Some (Dir es) \<Rightarrow>
          if c = ''.'' then descend r stk cs
          else if c = ''..'' then descend r (butlast stk) cs
          else (case map_of es c of
                  None \<Rightarrow> None
                | Some child \<Rightarrow> descend r (stk @ [c]) cs)
      | _ \<Rightarrow> None)"

definition resolve :: "world \<Rightarrow> string \<Rightarrow> string list option" where
  "resolve w p =
     (if p = [] then None
      else (case descend (tree w) (if hd p = CHR ''/'' then [] else cwd w) (components p) of
              None \<Rightarrow> None
            | Some stk \<Rightarrow>
                (case lookup (tree w) stk of
                   None \<Rightarrow> None
                 | Some n \<Rightarrow> if last p = CHR ''/'' \<and> \<not> is_dir n then None else Some stk)))"

text \<open>
  What a path names, as \<^verbatim>\<open>os.stat\<close> and \<^verbatim>\<open>open\<close> see it: the names from the root to it, and
  the node there. Where the path resolves to a link, it names the file the link points to.
\<close>

definition stat :: "world \<Rightarrow> string \<Rightarrow> (string list \<times> node) option" where
  "stat w p =
     (case resolve w p of
        None \<Rightarrow> None
      | Some stk \<Rightarrow>
          (case lookup (tree w) stk of
             None \<Rightarrow> None
           | Some (Link t) \<Rightarrow>
               (case lookup (tree w) t of Some (File c) \<Rightarrow> Some (t, File c) | _ \<Rightarrow> None)
           | Some n \<Rightarrow> Some (stk, n)))"

subsection \<open>The library calls of the script\<close>

text \<open>\<^verbatim>\<open>os.path.isdir(path)\<close>.\<close>

definition isdir :: "world \<Rightarrow> string \<Rightarrow> bool" where
  "isdir w p = (case stat w p of Some (stk, Dir es) \<Rightarrow> True | _ \<Rightarrow> False)"

text \<open>
  \<^verbatim>\<open>os.path.join(a, b)\<close> on POSIX: an absolute \<open>b\<close> replaces \<open>a\<close>; otherwise \<open>b\<close> is appended,
  after a slash unless \<open>a\<close> is empty or ends with one.
\<close>

definition join :: "string \<Rightarrow> string \<Rightarrow> string" where
  "join a b =
     (if b \<noteq> [] \<and> hd b = CHR ''/'' then b
      else if a = [] \<or> last a = CHR ''/'' then a @ b
      else a @ ''/'' @ b)"

text \<open>
  \<^verbatim>\<open>os.walk(top)\<close>, top-down: for a directory, the triple of its path, the names of its
  subdirectories and the names of its other entries (regular files and links), then the
  walks of the subdirectories under their joined paths, in order. A path that names no
  directory yields nothing.
  The generator lists a directory only when the loop asks for it, after the files of the
  directories before it were rewritten; \<open>os_walk_fix_html\<close> below shows that rewriting
  a file changes no listing, so the triples are those of the tree the run starts on.
\<close>

fun walk :: "string \<Rightarrow> node \<Rightarrow> (string \<times> string list \<times> string list) list" where
  "walk tp (File c) = []"
| "walk tp (Link t) = []"
| "walk tp (Dir es) =
     (tp, map fst (filter (\<lambda>(name, child). is_dir child) es),
          map fst (filter (\<lambda>(name, child). \<not> is_dir child) es))
     # concat (map (\<lambda>(name, child). walk (join tp name) child)
                   (filter (\<lambda>(name, child). is_dir child) es))"

definition os_walk :: "world \<Rightarrow> string \<Rightarrow> (string \<times> string list \<times> string list) list" where
  "os_walk w tp = (case stat w tp of None \<Rightarrow> [] | Some (stk, n) \<Rightarrow> walk tp n)"

text \<open>
  \<^verbatim>\<open>open(path, "r").read()\<close> and \<^verbatim>\<open>open(path, "w").write(s)\<close>. Opening a path that names no
  regular file raises an \<^verbatim>\<open>OSError\<close> (\<^verbatim>\<open>FileNotFoundError\<close>, \<^verbatim>\<open>NotADirectoryError\<close> or
  \<^verbatim>\<open>IsADirectoryError\<close>). Opening for writing would create a missing file in an existing
  directory; the script writes only to a path it has just read, so that case is left out
  and modelled as the error.
\<close>

datatype error = OSError

definition read_text :: "world \<Rightarrow> string \<Rightarrow> error + string" where
  "read_text w p = (case stat w p of Some (stk, File c) \<Rightarrow> Inr c | _ \<Rightarrow> Inl OSError)"

definition write_text :: "world \<Rightarrow> string \<Rightarrow> string \<Rightarrow> error + world" where
  "write_text w p s =
     (case stat w p of
        Some (stk, File c) \<Rightarrow>
          Inr (w\<lparr>tree := modify (tree w) stk (\<lambda>_. File s), written := written w @ [p]\<rparr>)
      | _ \<Rightarrow> Inl OSError)"

section \<open>The script\<close>

text \<open>
  \<^verbatim>\<open>
  def fix_html(path: str) -> bool:
      with open(path, "r") as f:
          content = f.read()
      new = re.sub(...)
      if new != content:
          with open(path, "w") as f:
              f.write(new)
          return True
      return False
  \<close>
  The result is the returned flag and the world after the call, or the exception raised.
\<close>

definition fix_html :: "string \<Rightarrow> world \<Rightarrow> error + (bool \<times> world)" where
  "fix_html path w =
     (case read_text w path of
        Inl e \<Rightarrow> Inl e
      | Inr content \<Rightarrow>
          (let new = re_sub content
           in if new \<noteq> content
              then (case write_text w path new of
                      Inl e \<Rightarrow> Inl e
                    | Inr w' \<Rightarrow> Inr (True, w'))
              else Inr (False, w)))"

text \<open>
  \<^verbatim>\<open>
  count = 0
  for root, _, files in os.walk(dist_dir):
      for name in files:
          if name.endswith(".html"):
              path = os.path.join(root, name)
              if fix_html(path):
                  count += 1
  \<close>
  The two loops thread the counter and the world; an exception ends them.
\<close>

fun files_loop :: "string \<Rightarrow> string list \<Rightarrow> nat \<times> world \<Rightarrow> error + (nat \<times> world)" where
  "files_loop root [] st = Inr st"
| "files_loop root (name # names) (count, w) =
     (if endswith name ''.html''
      then (case fix_html (join root name) w of
              Inl e \<Rightarrow> Inl e
            | Inr (changed, w') \<Rightarrow>
                files_loop root names (if changed then count + 1 else count, w'))
      else files_loop root names (count, w))"

fun walk_loop :: "(string \<times> string list \<times> string list) list \<Rightarrow> nat \<times> world \<Rightarrow> error + (nat \<times> world)" where
  "walk_loop [] st = Inr st"
| "walk_loop ((root, dirs, files) # rest) st =
     (case files_loop root files st of
        Inl e \<Rightarrow> Inl e
      | Inr st' \<Rightarrow> walk_loop rest st')"

text \<open>The decimal digits of the counter, as the f-string formats it.\<close>

function str :: "nat \<Rightarrow> string" where
  "str n = (if n < 10 then [char_of (48 + n)] else str (n div 10) @ [char_of (48 + n mod 10)])"
  by pat_completeness auto
termination
  by (relation "measure id") auto

declare str.simps [simp del]

text \<open>What the process leaves behind: its two output streams and its exit status.\<close>

record outcome =
  stdout :: string
  stderr :: string
  exit_code :: nat

text \<open>\<^verbatim>\<open>dist_dir = sys.argv[1] if len(sys.argv) > 1 else "dist"\<close>\<close>

definition dist_dir_of :: "string list \<Rightarrow> string" where
  "dist_dir_of argv = (if length argv > 1 then argv ! 1 else ''dist'')"

text \<open>
  \<^verbatim>\<open>
  def main():
      dist_dir = ...
      if not os.path.isdir(dist_dir):
          print(f"Error: directory '{dist_dir}' not found", file=sys.stderr)
          sys.exit(1)
      count = 0
      for ...
      print(f"Fixed {count} HTML files in {dist_dir}")
  \<close>
  \<^verbatim>\<open>print\<close> ends its line with a newline. \<open>Inl\<close> is an exception that nothing catches.
\<close>

definition main :: "string list \<Rightarrow> world \<Rightarrow> error + (outcome \<times> world)" where
  "main argv w =
     (let dist_dir = dist_dir_of argv
      in if \<not> isdir w dist_dir
         then Inr (\<lparr>stdout = [],
                    stderr = ''Error: directory '' @ [CHR 0x27] @ dist_dir @ [CHR 0x27] @ '' not found'' @ [CHR 0x0A],
                    exit_code = 1\<rparr>, w)
         else (case walk_loop (os_walk w dist_dir) (0, w) of
                 Inl e \<Rightarrow> Inl e
               | Inr (count, w') \<Rightarrow>
                   Inr (\<lparr>stdout = ''Fixed '' @ str count @ '' HTML files in '' @ dist_dir @ [CHR 0x0A],
                          stderr = [],
                          exit_code = 0\<rparr>, w')))"

section \<open>What a run is expected to do\<close>

text \<open>
  The names of a directory's entries are not empty, hold no slash, are neither \<^verbatim>\<open>.\<close> nor
  \<^verbatim>\<open>..\<close>, and differ from each other: what every file system guarantees.
\<close>

definition valid_name :: "string \<Rightarrow> bool" where
  "valid_name name = (name \<noteq> [] \<and> CHR ''/'' \<notin> set name \<and> name \<noteq> ''.'' \<and> name \<noteq> ''..'')"

text \<open>
  A well-formed tree has such names throughout, and none of its entries named \<^verbatim>\<open>*.html\<close>
  is a link: every file the run opens is the entry it found.
\<close>

fun is_link :: "node \<Rightarrow> bool" where
  "is_link (Link t) = True"
| "is_link (File c) = False"
| "is_link (Dir es) = False"

fun wf_node :: "node \<Rightarrow> bool" where
  "wf_node (File c) = True"
| "wf_node (Link t) = True"
| "wf_node (Dir es) =
     (distinct (map fst es) \<and>
      list_all (\<lambda>(name, child). valid_name name \<and> wf_node child \<and>
                                \<not> (is_link child \<and> endswith name ''.html'')) es)"

text \<open>
  The specification's traversal: in the tree below the root directory, every regular
  file whose name ends with \<^verbatim>\<open>.html\<close> holds the substitution of its content; nothing else
  changes.
\<close>

fun fix_tree :: "node \<Rightarrow> node" where
  "fix_tree (File c) = File c"
| "fix_tree (Link t) = Link t"
| "fix_tree (Dir es) =
     Dir (map (\<lambda>(name, child).
                 (name, case child of
                          File c \<Rightarrow> File (if endswith name ''.html'' then re_sub c else c)
                        | Link t \<Rightarrow> Link t
                        | Dir es' \<Rightarrow> fix_tree child)) es)"

text \<open>An entry that the run rewrites: a file named \<^verbatim>\<open>*.html\<close> that the substitution changes.\<close>

definition to_write :: "string \<times> node \<Rightarrow> bool" where
  "to_write e =
     (case snd e of
        File c \<Rightarrow> endswith (fst e) ''.html'' \<and> re_sub c \<noteq> c
      | Link t \<Rightarrow> False
      | Dir es \<Rightarrow> False)"

text \<open>The paths of the rewritten files, in the order of the walk, and their number.\<close>

fun changed_paths :: "string \<Rightarrow> node \<Rightarrow> string list" where
  "changed_paths tp (File c) = []"
| "changed_paths tp (Link t) = []"
| "changed_paths tp (Dir es) =
     map (\<lambda>(name, child). join tp name) (filter to_write es)
     @ concat (map (\<lambda>(name, child). changed_paths (join tp name) child)
                   (filter (\<lambda>(name, child). is_dir child) es))"

fun count_changed :: "node \<Rightarrow> nat" where
  "count_changed (File c) = 0"
| "count_changed (Link t) = 0"
| "count_changed (Dir es) =
     sum_list (map (\<lambda>(name, child).
                      case child of
                        File c \<Rightarrow> if endswith name ''.html'' \<and> re_sub c \<noteq> c then 1 else 0
                      | Link t \<Rightarrow> 0
                      | Dir es' \<Rightarrow> count_changed child) es)"

section \<open>Facts about the tree\<close>

lemma map_of_update_first:
  "map_of (update_first x g es) y = (if y = x then map_option g (map_of es x) else map_of es y)"
  by (induction es) auto

lemma map_fst_update_first: "map fst (update_first x g es) = map fst es"
  by (induction es) auto

lemma update_first_const:
  "map_of es x = Some child \<Longrightarrow> update_first x g es = update_first x (\<lambda>_. g child) es"
  by (induction es) auto

lemma update_first_id: "map_of es x = Some child \<Longrightarrow> update_first x (\<lambda>_. child) es = es"
  by (induction es) auto

lemma update_first_twice:
  "update_first x g (update_first x f es) = update_first x (\<lambda>c. g (f c)) es"
  by (induction es) auto

lemma update_first_append:
  "x \<notin> fst ` set pre \<Longrightarrow> update_first x g (pre @ (x, c) # post) = pre @ (x, g c) # post"
  by (induction pre) auto

lemma map_of_append_fresh:
  "x \<notin> fst ` set pre \<Longrightarrow> map_of (pre @ (x, c) # post) x = Some c"
  by (induction pre) auto

lemma lookup_append:
  "lookup n (p @ q) = (case lookup n p of None \<Rightarrow> None | Some m \<Rightarrow> lookup m q)"
  by (induction p arbitrary: n) (auto split: node.splits option.splits)

lemma modify_append: "modify n (p @ q) f = modify n p (\<lambda>m. modify m q f)"
  by (induction p arbitrary: n) (auto split: node.splits)

lemma lookup_modify: "lookup (modify n p f) p = map_option f (lookup n p)"
  by (induction p arbitrary: n) (auto simp: map_of_update_first split: node.splits option.splits)

lemma modify_modify: "modify (modify n p f) p g = modify n p (\<lambda>m. g (f m))"
  by (induction p arbitrary: n) (auto simp: update_first_twice split: node.splits)

lemma modify_const: "lookup n p = Some m \<Longrightarrow> modify n p f = modify n p (\<lambda>_. f m)"
proof (induction p arbitrary: n)
  case Nil
  then show ?case by simp
next
  case (Cons x xs)
  from Cons.prems obtain es child where n: "n = Dir es" and c: "map_of es x = Some child"
    and l: "lookup child xs = Some m"
    by (auto split: node.splits option.splits)
  have "update_first x (\<lambda>c. modify c xs f) es = update_first x (\<lambda>_. modify child xs f) es"
    by (rule update_first_const[OF c])
  also have "\<dots> = update_first x (\<lambda>_. modify child xs (\<lambda>_. f m)) es"
    using Cons.IH[OF l] by simp
  also have "\<dots> = update_first x (\<lambda>c. modify c xs (\<lambda>_. f m)) es"
    by (rule update_first_const[OF c, symmetric])
  finally show ?case using n by simp
qed

lemma modify_id: "lookup n p = Some m \<Longrightarrow> modify n p (\<lambda>_. m) = n"
proof (induction p arbitrary: n)
  case Nil
  then show ?case by simp
next
  case (Cons x xs)
  from Cons.prems obtain es child where n: "n = Dir es" and c: "map_of es x = Some child"
    and l: "lookup child xs = Some m"
    by (auto split: node.splits option.splits)
  have "update_first x (\<lambda>c. modify c xs (\<lambda>_. m)) es = update_first x (\<lambda>_. modify child xs (\<lambda>_. m)) es"
    by (rule update_first_const[OF c])
  also have "\<dots> = update_first x (\<lambda>_. child) es"
    using Cons.IH[OF l] by simp
  also have "\<dots> = es" by (rule update_first_id[OF c])
  finally show ?case using n by simp
qed

lemma lookup_modify_other:
  "\<not> (\<exists>r. q = p @ r) \<Longrightarrow> lookup t q = Some m \<Longrightarrow> \<not> is_dir m \<Longrightarrow>
     lookup (modify t p f) q = Some m"
proof (induction p arbitrary: t q)
  case Nil
  then show ?case by simp
next
  case (Cons x xs)
  show ?case
  proof (cases q)
    case Nil
    with Cons.prems(2,3) show ?thesis by (cases t) auto
  next
    case (Cons y ys)
    with Cons.prems(2) obtain es child where t: "t = Dir es" and m: "map_of es y = Some child"
      and l: "lookup child ys = Some m"
      by (auto split: node.splits option.splits)
    show ?thesis
    proof (cases "y = x")
      case True
      with Cons.prems(1) Cons have "\<not> (\<exists>r. ys = xs @ r)" by simp
      from Cons.IH[OF this l Cons.prems(3)] have "lookup (modify child xs f) ys = Some m" .
      with t m Cons True show ?thesis by (simp add: map_of_update_first)
    next
      case False
      with t m l Cons show ?thesis by (simp add: map_of_update_first)
    qed
  qed
qed

text \<open>Nothing lies below a regular file or a link.\<close>

lemma lookup_below_leaf:
  "lookup t p = Some m \<Longrightarrow> \<not> is_dir m \<Longrightarrow> lookup t (p @ r) = Some m' \<Longrightarrow> r = []"
  by (cases r; cases m) (auto simp: lookup_append)

text \<open>
  The shape of a tree: its directories and names, with every content blanked. Path
  resolution and directory listings depend on the shape only, and rewriting a file keeps it.
\<close>

fun shape :: "node \<Rightarrow> node" where
  "shape (File c) = File []"
| "shape (Link t) = Link t"
| "shape (Dir es) = Dir (map (\<lambda>(name, child). (name, shape child)) es)"

lemma map_of_shape:
  "map_of (map (\<lambda>(name, child). (name, shape child)) es) x = map_option shape (map_of es x)"
  by (induction es) auto

lemma lookup_shape: "lookup (shape n) p = map_option shape (lookup n p)"
  by (induction p arbitrary: n) (auto simp: map_of_shape split: node.splits option.splits)

lemma is_dir_shape: "is_dir (shape n) = is_dir n"
  by (cases n) auto

lemma descend_shape: "descend (shape r) stk cs = descend r stk cs"
  by (induction cs arbitrary: stk)
    (auto simp: lookup_shape map_of_shape split: node.splits option.splits)

lemma map_shape_update_first:
  "map_of es x = Some child \<Longrightarrow> shape (g child) = shape child \<Longrightarrow>
   map (\<lambda>(name, child). (name, shape child)) (update_first x g es)
     = map (\<lambda>(name, child). (name, shape child)) es"
  by (induction es) auto

lemma shape_modify:
  "lookup n p = Some m \<Longrightarrow> shape (f m) = shape m \<Longrightarrow> shape (modify n p f) = shape n"
proof (induction p arbitrary: n)
  case Nil
  then show ?case by simp
next
  case (Cons x xs)
  from Cons.prems obtain es child where n: "n = Dir es" and c: "map_of es x = Some child"
    and l: "lookup child xs = Some m"
    by (auto split: node.splits option.splits)
  have "shape (modify child xs f) = shape child" by (rule Cons.IH[OF l Cons.prems(2)])
  then show ?case using n c by (simp add: map_shape_update_first)
qed

lemma shape_eq_is_dir: "shape n' = shape n \<Longrightarrow> is_dir n' = is_dir n"
  by (cases n; cases n') auto

lemma resolve_shape:
  assumes "shape (tree w') = shape (tree w)" "cwd w' = cwd w"
  shows "resolve w' p = resolve w p"
proof -
  have d: "descend (tree w') stk cs = descend (tree w) stk cs" for stk cs
  proof -
    have "descend (tree w') stk cs = descend (shape (tree w')) stk cs"
      by (rule descend_shape[symmetric])
    also have "\<dots> = descend (shape (tree w)) stk cs" by (simp only: assms(1))
    also have "\<dots> = descend (tree w) stk cs" by (rule descend_shape)
    finally show ?thesis .
  qed
  have l: "map_option shape (lookup (tree w') stk) = map_option shape (lookup (tree w) stk)" for stk
  proof -
    have "map_option shape (lookup (tree w') stk) = lookup (shape (tree w')) stk"
      by (rule lookup_shape[symmetric])
    also have "\<dots> = lookup (shape (tree w)) stk" by (simp only: assms(1))
    also have "\<dots> = map_option shape (lookup (tree w) stk)" by (rule lookup_shape)
    finally show ?thesis .
  qed
  have i: "(case lookup (tree w') stk of None \<Rightarrow> None
            | Some n \<Rightarrow> if last p = CHR ''/'' \<and> \<not> is_dir n then None else Some stk)
      = (case lookup (tree w) stk of None \<Rightarrow> None
            | Some n \<Rightarrow> if last p = CHR ''/'' \<and> \<not> is_dir n then None else Some stk)" for stk
  proof (cases "lookup (tree w') stk")
    case None
    with l[of stk] show ?thesis by simp
  next
    case (Some n')
    with l[of stk] obtain n where n: "lookup (tree w) stk = Some n" "shape n' = shape n"
      by (cases "lookup (tree w) stk") auto
    from shape_eq_is_dir[OF n(2)] Some n(1) show ?thesis by simp
  qed
  show ?thesis unfolding resolve_def by (simp only: d i assms(2))
qed

subsection \<open>Paths of directory entries\<close>

lemma split_slash_nonempty: "split_slash s \<noteq> []"
  by (induction s) (auto split: list.splits)

lemma split_slash_append: "split_slash (a @ CHR ''/'' # b) = split_slash a @ split_slash b"
proof (induction a)
  case Nil
  show ?case by simp
next
  case (Cons c a)
  obtain x xs where "split_slash a = x # xs"
    using split_slash_nonempty[of a] by (cases "split_slash a") auto
  with Cons show ?case by simp
qed

lemma split_slash_name: "CHR ''/'' \<notin> set name \<Longrightarrow> split_slash name = [name]"
  by (induction name) auto

lemma components_snoc:
  assumes "name \<noteq> []" "CHR ''/'' \<notin> set name"
  shows "components (a @ CHR ''/'' # name) = components a @ [name]"
  using assms by (simp add: components_def split_slash_append split_slash_name)

lemma components_trailing: "components (a @ ''/'') = components a"
  by (simp add: components_def split_slash_append)

lemma join_name:
  assumes "tp \<noteq> []" "name \<noteq> []" "CHR ''/'' \<notin> set name"
  shows "components (join tp name) = components tp @ [name]"
    and "hd (join tp name) = hd tp"
    and "last (join tp name) = last name"
    and "join tp name \<noteq> []"
proof -
  have h: "hd name \<noteq> CHR ''/''" using assms(2,3) by (cases name) auto
  show "components (join tp name) = components tp @ [name]"
  proof (cases "last tp = CHR ''/''")
    case True
    then obtain a where a: "tp = a @ ''/''"
      using assms(1) by (metis append_butlast_last_id)
    then have "join tp name = a @ CHR ''/'' # name" using h assms(2) True by (simp add: join_def)
    moreover have "components tp = components a" using a by (simp only: components_trailing)
    ultimately show ?thesis using components_snoc[OF assms(2,3), of a] by simp
  next
    case False
    then have "join tp name = tp @ CHR ''/'' # name" using h assms by (simp add: join_def)
    then show ?thesis using components_snoc[OF assms(2,3), of tp] by simp
  qed
  show "hd (join tp name) = hd tp" using h assms by (auto simp: join_def)
  show "last (join tp name) = last name" using h assms by (auto simp: join_def)
  show "join tp name \<noteq> []" using h assms by (auto simp: join_def)
qed

lemma descend_append:
  "descend r stk (cs @ ds) = (case descend r stk cs of None \<Rightarrow> None | Some s \<Rightarrow> descend r s ds)"
  by (induction cs arbitrary: stk) (auto split: option.splits node.splits)

lemma resolve_join:
  assumes r: "resolve w tp = Some stk"
    and l: "lookup (tree w) stk = Some (Dir es)"
    and c: "map_of es name = Some child"
    and v: "valid_name name"
  shows "resolve w (join tp name) = Some (stk @ [name])"
proof -
  from r have tp: "tp \<noteq> []" by (auto simp: resolve_def split: if_splits)
  from v have n: "name \<noteq> []" "CHR ''/'' \<notin> set name" "name \<noteq> ''.''" "name \<noteq> ''..''"
    by (auto simp: valid_name_def)
  let ?s0 = "if hd tp = CHR ''/'' then [] else cwd w"
  from r tp have d: "descend (tree w) ?s0 (components tp) = Some stk"
    by (auto simp: resolve_def split: if_splits option.splits)
  have "descend (tree w) stk [name] = Some (stk @ [name])"
    using l c n by simp
  with d have d': "descend (tree w) ?s0 (components tp @ [name]) = Some (stk @ [name])"
    by (simp only: descend_append option.case)
  have lk: "lookup (tree w) (stk @ [name]) = Some child"
    using l c by (simp add: lookup_append)
  have "last name \<noteq> CHR ''/''" using n by (metis last_in_set)
  then show ?thesis
    unfolding resolve_def
    using join_name[OF tp n(1,2)] d' lk by simp
qed

lemma stat_child:
  assumes "resolve w tp = Some stk" "lookup (tree w) stk = Some (Dir es)"
    "map_of es name = Some child" "valid_name name" and nl: "\<not> is_link child"
  shows "stat w (join tp name) = Some (stk @ [name], child)"
  using resolve_join[OF assms(1-4)] assms(2,3) nl
  by (cases child) (simp_all add: stat_def lookup_append)

lemma fix_html_child:
  assumes "resolve w tp = Some stk" "lookup (tree w) stk = Some (Dir es)"
    "map_of es name = Some (File c)" "valid_name name"
  shows "fix_html (join tp name) w =
           Inr (re_sub c \<noteq> c,
                if re_sub c \<noteq> c
                then w\<lparr>tree := modify (tree w) (stk @ [name]) (\<lambda>_. File (re_sub c)),
                       written := written w @ [join tp name]\<rparr>
                else w)"
  using stat_child[OF assms, simplified]
  by (simp add: fix_html_def read_text_def write_text_def Let_def)

section \<open>The loops of \<^verbatim>\<open>main\<close>\<close>

text \<open>
  An entry after the loop over the files of its directory, after the walk of the whole
  directory, and the paths rewritten below the subdirectories of a directory.
\<close>

definition fix_file :: "string \<times> node \<Rightarrow> string \<times> node" where
  "fix_file e =
     (case snd e of
        File c \<Rightarrow> (fst e, File (if endswith (fst e) ''.html'' then re_sub c else c))
      | Link t \<Rightarrow> e
      | Dir es \<Rightarrow> e)"

definition fix_entry :: "string \<times> node \<Rightarrow> string \<times> node" where
  "fix_entry e =
     (case snd e of
        File c \<Rightarrow> (fst e, File (if endswith (fst e) ''.html'' then re_sub c else c))
      | Link t \<Rightarrow> e
      | Dir es \<Rightarrow> (fst e, fix_tree (snd e)))"

definition sub_paths :: "string \<Rightarrow> (string \<times> node) list \<Rightarrow> string list" where
  "sub_paths tp es =
     concat (map (\<lambda>(name, child). changed_paths (join tp name) child)
                 (filter (\<lambda>(name, child). is_dir child) es))"

lemma fix_tree_Dir: "fix_tree (Dir es) = Dir (map fix_entry es)"
  by (auto simp: fix_entry_def split: node.splits)

lemma changed_paths_Dir:
  "changed_paths tp (Dir es) = map (\<lambda>(name, child). join tp name) (filter to_write es) @ sub_paths tp es"
  by (simp add: sub_paths_def)

lemma fst_fix_file [simp]: "fst (fix_file e) = fst e"
  by (auto simp: fix_file_def split: node.splits)

lemma fst_fix_entry [simp]: "fst (fix_entry e) = fst e"
  by (auto simp: fix_entry_def split: node.splits)

lemma walk_loop_append:
  "walk_loop (xs @ ys) st = (case walk_loop xs st of Inl e \<Rightarrow> Inl e | Inr st' \<Rightarrow> walk_loop ys st')"
  by (induction xs arbitrary: st) (auto split: sum.splits)

text \<open>Writing in a directory entry: the world after a change below \<open>stk\<close>.\<close>

lemma modify_entry:
  assumes l: "lookup t stk = Some (Dir (pre @ (name, child) # post))"
    and f: "name \<notin> fst ` set pre"
  shows "modify t (stk @ [name]) g = modify t stk (\<lambda>_. Dir (pre @ (name, g child) # post))"
proof -
  have "modify t (stk @ [name]) g = modify t stk (\<lambda>m. modify m [name] g)"
    by (rule modify_append)
  also have "\<dots> = modify t stk (\<lambda>_. modify (Dir (pre @ (name, child) # post)) [name] g)"
    by (rule modify_const[OF l])
  also have "modify (Dir (pre @ (name, child) # post)) [name] g = Dir (pre @ (name, g child) # post)"
    using f by (simp add: update_first_append)
  finally show ?thesis .
qed

lemma lookup_entry:
  assumes l: "lookup t stk = Some (Dir (pre @ (name, child) # post))"
    and f: "name \<notin> fst ` set pre"
  shows "lookup t (stk @ [name]) = Some child"
    and "map_of (pre @ (name, child) # post) name = Some child"
proof -
  show m: "map_of (pre @ (name, child) # post) name = Some child"
    by (rule map_of_append_fresh[OF f])
  show "lookup t (stk @ [name]) = Some child"
    using l m by (simp add: lookup_append del: map_of_append)
qed

lemma lookup_modify_const: "lookup t stk = Some m \<Longrightarrow> lookup (modify t stk (\<lambda>_. m')) stk = Some m'"
  by (simp add: lookup_modify)

lemma modify_modify_const: "modify (modify t stk (\<lambda>_. a)) stk (\<lambda>_. b) = modify t stk (\<lambda>_. b)"
  by (simp add: modify_modify)

lemma resolve_after_modify:
  assumes r: "resolve w tp = Some stk" and l: "lookup (tree w) stk' = Some m"
    and s: "shape m' = shape m"
  shows "resolve (w\<lparr>tree := modify (tree w) stk' (\<lambda>_. m'), written := ws\<rparr>) tp = Some stk"
proof -
  have "shape (modify (tree w) stk' (\<lambda>_. m')) = shape (tree w)"
    by (rule shape_modify[OF l s])
  then have "resolve (w\<lparr>tree := modify (tree w) stk' (\<lambda>_. m'), written := ws\<rparr>) tp = resolve w tp"
    by (intro resolve_shape) simp_all
  with r show ?thesis by simp
qed

lemma files_loop_dir:
  assumes "resolve w tp = Some stk"
    and "lookup (tree w) stk = Some (Dir (pre @ todo))"
    and "distinct (map fst (pre @ todo))"
    and "list_all (\<lambda>(name, child). valid_name name \<and> \<not> (is_link child \<and> endswith name ''.html'')) todo"
  shows "files_loop tp (map fst (filter (\<lambda>(name, child). \<not> is_dir child) todo)) (k, w) =
     Inr (k + length (filter to_write todo),
          w\<lparr>tree := modify (tree w) stk (\<lambda>_. Dir (pre @ map fix_file todo)),
            written := written w @ map (\<lambda>(name, child). join tp name) (filter to_write todo)\<rparr>)"
  using assms
proof (induction todo arbitrary: pre k w)
  case Nil
  then show ?case by (simp add: modify_id)
next
  case (Cons e todo)
  obtain name child where e: "e = (name, child)" by (cases e)
  from Cons.prems(3) e have fresh: "name \<notin> fst ` set pre" and d': "distinct (map fst ((pre @ [e]) @ todo))"
    by auto
  from Cons.prems(4) e have v: "valid_name name"
    and nl: "\<not> (is_link child \<and> endswith name ''.html'')" and v': "list_all (\<lambda>(name, child). valid_name name \<and> \<not> (is_link child \<and> endswith name ''.html'')) todo"
    by auto
  from Cons.prems(2) e have l: "lookup (tree w) stk = Some (Dir (pre @ (name, child) # todo))"
    by simp
  show ?case
  proof (cases child)
    case (Dir es')
    have l': "lookup (tree w) stk = Some (Dir ((pre @ [e]) @ todo))" using l e by simp
    have fe: "fix_file e = e" using e Dir by (simp add: fix_file_def)
    have nw: "\<not> to_write e" using e Dir by (simp add: to_write_def)
    from Cons.IH[OF Cons.prems(1) l' d' v', of k] show ?thesis
      using e Dir fe nw by simp
  next
    case (Link t)
    have l': "lookup (tree w) stk = Some (Dir ((pre @ [e]) @ todo))" using l e by simp
    have fe: "fix_file e = e" using e Link by (simp add: fix_file_def)
    have nw: "\<not> to_write e" using e Link by (simp add: to_write_def)
    have nh: "\<not> endswith name ''.html''" using nl Link by simp
    from Cons.IH[OF Cons.prems(1) l' d' v', of k] show ?thesis
      using e Link fe nw nh by simp
  next
    case (File c)
    have lf: "lookup (tree w) stk = Some (Dir (pre @ (name, File c) # todo))" using l File by simp
    show ?thesis
    proof (cases "to_write e")
      case False
      have l': "lookup (tree w) stk = Some (Dir ((pre @ [e]) @ todo))" using l e by simp
      have fe: "fix_file e = e" using e File False by (auto simp: fix_file_def to_write_def)
      have step: "files_loop tp (name # ns) (k, w) = files_loop tp ns (k, w)" for ns
      proof (cases "endswith name ''.html''")
        case True
        with False e File have "re_sub c = c" by (simp add: to_write_def)
        with fix_html_child[OF Cons.prems(1) lf lookup_entry(2)[OF lf fresh] v]
        show ?thesis using True by simp
      next
        case no: False
        then show ?thesis by simp
      qed
      from Cons.IH[OF Cons.prems(1) l' d' v', of k] show ?thesis
        using e File fe False step by simp
    next
      case True
      then have h: "endswith name ''.html''" and ch: "re_sub c \<noteq> c"
        using e File by (simp_all add: to_write_def)
      define w1 where "w1 = w\<lparr>tree := modify (tree w) stk (\<lambda>_. Dir (pre @ (name, File (re_sub c)) # todo)),
                               written := written w @ [join tp name]\<rparr>"
      have fx: "fix_html (join tp name) w = Inr (True, w1)"
        using fix_html_child[OF Cons.prems(1) lf lookup_entry(2)[OF lf fresh] v] ch
          modify_entry[OF lf fresh, of "\<lambda>_. File (re_sub c)"]
        by (simp add: w1_def)
      have step: "files_loop tp (name # ns) (k, w) = files_loop tp ns (k + 1, w1)" for ns
        using fx h by simp
      have sh: "shape (Dir (pre @ (name, File (re_sub c)) # todo)) = shape (Dir (pre @ (name, File c) # todo))"
        by simp
      have r1: "resolve w1 tp = Some stk"
        unfolding w1_def by (rule resolve_after_modify[OF Cons.prems(1) lf sh])
      have l1: "lookup (tree w1) stk = Some (Dir ((pre @ [fix_file e]) @ todo))"
        using lookup_modify_const[OF lf] e File h by (simp add: w1_def fix_file_def)
      have d1: "distinct (map fst ((pre @ [fix_file e]) @ todo))" using d' by simp
      from Cons.IH[OF r1 l1 d1 v', of "k + 1"]
      have "files_loop tp (map fst (filter (\<lambda>(name, child). \<not> is_dir child) todo)) (k + 1, w1) =
        Inr (k + 1 + length (filter to_write todo),
          w1\<lparr>tree := modify (tree w1) stk (\<lambda>_. Dir ((pre @ [fix_file e]) @ map fix_file todo)),
            written := written w1 @ map (\<lambda>(name, child). join tp name) (filter to_write todo)\<rparr>)" .
      moreover have "modify (tree w1) stk (\<lambda>_. Dir ((pre @ [fix_file e]) @ map fix_file todo))
          = modify (tree w) stk (\<lambda>_. Dir (pre @ map fix_file (e # todo)))"
        by (simp add: w1_def modify_modify_const)
      ultimately show ?thesis
        using e File True step by (simp add: w1_def)
    qed
  qed
qed

lemma shape_fix_tree: "shape (fix_tree n) = shape n"
proof (induction n)
  case (File c)
  show ?case by simp
next
  case (Link t)
  show ?case by simp
next
  case (Dir es)
  have "(case fix_entry e of (name, child) \<Rightarrow> (name, shape child))
          = (case e of (name, child) \<Rightarrow> (name, shape child))" if "e \<in> set es" for e
  proof -
    obtain name child where e: "e = (name, child)" by (cases e)
    show ?thesis
    proof (cases child)
      case (File c)
      with e show ?thesis by (simp add: fix_entry_def)
    next
      case (Link t)
      with e show ?thesis by (simp add: fix_entry_def)
    next
      case (Dir es')
      have "shape (fix_tree child) = shape child"
        using Dir.IH[of e child] that e by simp
      with e Dir show ?thesis by (simp add: fix_entry_def)
    qed
  qed
  then show ?case by (simp add: fix_tree_Dir del: fix_tree.simps cong: map_cong)
qed

lemma shape_map_fix_file: "shape (Dir (pre @ map fix_file es)) = shape (Dir (pre @ es))"
proof -
  have "(case fix_file e of (name, child) \<Rightarrow> (name, shape child))
          = (case e of (name, child) \<Rightarrow> (name, shape child))" for e
    by (cases e) (auto simp: fix_file_def split: node.splits)
  then show ?thesis by simp
qed

text \<open>
  The statement proved by induction on the tree: walking a well-formed tree that a path
  resolves to leaves the tree of the specification there, counts the rewritten files and
  logs their paths.
\<close>

definition tree_ok :: "node \<Rightarrow> bool" where
  "tree_ok n \<longleftrightarrow>
     (\<forall>tp stk k w. wf_node n \<longrightarrow> resolve w tp = Some stk \<longrightarrow> lookup (tree w) stk = Some n \<longrightarrow>
        walk_loop (walk tp n) (k, w) =
          Inr (k + length (changed_paths tp n),
               w\<lparr>tree := modify (tree w) stk (\<lambda>_. fix_tree n),
                 written := written w @ changed_paths tp n\<rparr>))"

lemma dirs_loop:
  assumes "\<And>e. e \<in> set todo \<Longrightarrow> tree_ok (snd e)"
    and "resolve w tp = Some stk"
    and "lookup (tree w) stk = Some (Dir (pre @ map fix_file todo))"
    and "distinct (map fst (pre @ todo))"
    and "list_all (\<lambda>(name, child). valid_name name \<and> wf_node child) todo"
  shows "walk_loop (concat (map (\<lambda>(name, child). walk (join tp name) child)
                                (filter (\<lambda>(name, child). is_dir child) todo))) (k, w) =
     Inr (k + length (sub_paths tp todo),
          w\<lparr>tree := modify (tree w) stk (\<lambda>_. Dir (pre @ map fix_entry todo)),
            written := written w @ sub_paths tp todo\<rparr>)"
  using assms
proof (induction todo arbitrary: pre k w)
  case Nil
  then show ?case by (simp add: modify_id sub_paths_def)
next
  case (Cons e todo)
  obtain name child where e: "e = (name, child)" by (cases e)
  from Cons.prems(4) e have fresh: "name \<notin> fst ` set pre" by auto
  from Cons.prems(5) e have v: "valid_name name" and wfc: "wf_node child"
    and v': "list_all (\<lambda>(name, child). valid_name name \<and> wf_node child) todo"
    by auto
  have ok': "\<And>e. e \<in> set todo \<Longrightarrow> tree_ok (snd e)" using Cons.prems(1) by simp
  show ?case
  proof (cases child)
    case (File c)
    have fe: "fix_entry e = fix_file e" using e File by (simp add: fix_entry_def fix_file_def)
    have l': "lookup (tree w) stk = Some (Dir ((pre @ [fix_file e]) @ map fix_file todo))"
      using Cons.prems(3) by simp
    have d': "distinct (map fst ((pre @ [fix_file e]) @ todo))" using Cons.prems(4) by simp
    from Cons.IH[OF ok' Cons.prems(2) l' d' v', of k] show ?thesis
      using e File fe by (simp add: sub_paths_def)
  next
    case (Link t)
    have fe: "fix_entry e = fix_file e" using e Link by (simp add: fix_entry_def fix_file_def)
    have l': "lookup (tree w) stk = Some (Dir ((pre @ [fix_file e]) @ map fix_file todo))"
      using Cons.prems(3) by simp
    have d': "distinct (map fst ((pre @ [fix_file e]) @ todo))" using Cons.prems(4) by simp
    from Cons.IH[OF ok' Cons.prems(2) l' d' v', of k] show ?thesis
      using e Link fe by (simp add: sub_paths_def)
  next
    case (Dir es')
    let ?tp' = "join tp name"
    have l: "lookup (tree w) stk = Some (Dir (pre @ (name, child) # map fix_file todo))"
      using Cons.prems(3) e Dir by (simp add: fix_file_def)
    have r': "resolve w ?tp' = Some (stk @ [name])"
      by (rule resolve_join[OF Cons.prems(2) l lookup_entry(2)[OF l fresh] v])
    have lc: "lookup (tree w) (stk @ [name]) = Some child"
      by (rule lookup_entry(1)[OF l fresh])
    define w1 where "w1 = w\<lparr>tree := modify (tree w) stk (\<lambda>_. Dir (pre @ (name, fix_tree child) # map fix_file todo)),
                             written := written w @ changed_paths ?tp' child\<rparr>"
    have "tree_ok child" using Cons.prems(1)[of e] e by simp
    then have sub: "walk_loop (walk ?tp' child) (k, w) = Inr (k + length (changed_paths ?tp' child), w1)"
      unfolding tree_ok_def w1_def
      using wfc r' lc modify_entry[OF l fresh, of "\<lambda>_. fix_tree child"] by simp
    have sh: "shape (Dir (pre @ (name, fix_tree child) # map fix_file todo))
                = shape (Dir (pre @ (name, child) # map fix_file todo))"
      by (simp add: shape_fix_tree)
    have r1: "resolve w1 tp = Some stk"
      unfolding w1_def by (rule resolve_after_modify[OF Cons.prems(2) l sh])
    have fe: "fix_entry e = (name, fix_tree child)" using e Dir by (simp add: fix_entry_def)
    have l1: "lookup (tree w1) stk = Some (Dir ((pre @ [fix_entry e]) @ map fix_file todo))"
      using lookup_modify_const[OF l] fe by (simp add: w1_def)
    have d1: "distinct (map fst ((pre @ [fix_entry e]) @ todo))" using Cons.prems(4) by simp
    note ih = Cons.IH[OF ok' r1 l1 d1 v', of "k + length (changed_paths ?tp' child)"]
    have m: "modify (tree w1) stk (\<lambda>_. Dir ((pre @ [fix_entry e]) @ map fix_entry todo))
          = modify (tree w) stk (\<lambda>_. Dir (pre @ map fix_entry (e # todo)))"
      by (simp add: w1_def modify_modify_const)
    have sp: "sub_paths tp (e # todo) = changed_paths ?tp' child @ sub_paths tp todo"
      using e Dir by (simp add: sub_paths_def)
    have "walk_loop (walk ?tp' child @ concat (map (\<lambda>(name, child). walk (join tp name) child)
                                (filter (\<lambda>(name, child). is_dir child) todo))) (k, w)
        = Inr (k + length (sub_paths tp (e # todo)),
          w\<lparr>tree := modify (tree w) stk (\<lambda>_. Dir (pre @ map fix_entry (e # todo))),
            written := written w @ sub_paths tp (e # todo)\<rparr>)"
      unfolding walk_loop_append sub sp using ih m by (simp add: w1_def)
    then show ?thesis using e Dir by simp
  qed
qed

lemma walk_loop_tree: "tree_ok n"
proof (induction n)
  case (File c)
  show ?case by (simp add: tree_ok_def modify_id)
next
  case (Link t)
  show ?case by (simp add: tree_ok_def modify_id)
next
  case (Dir es)
  have ok: "\<And>e. e \<in> set es \<Longrightarrow> tree_ok (snd e)"
  proof -
    fix e assume m: "e \<in> set es"
    obtain name child where e: "e = (name, child)" by (cases e)
    show "tree_ok (snd e)" using Dir.IH[of e child] m e by simp
  qed
  show ?case
    unfolding tree_ok_def
  proof (intro allI impI)
    fix tp stk k w
    assume wf: "wf_node (Dir es)" and r: "resolve w tp = Some stk"
      and l: "lookup (tree w) stk = Some (Dir es)"
    from wf have d: "distinct (map fst ([] @ es))"
      and v: "list_all (\<lambda>(name, child). valid_name name \<and>
                                      \<not> (is_link child \<and> endswith name ''.html'')) es"
      and v2: "list_all (\<lambda>(name, child). valid_name name \<and> wf_node child) es"
      by (auto simp: list_all_iff)
    define k1 where "k1 = k + length (filter to_write es)"
    define w1 where "w1 = w\<lparr>tree := modify (tree w) stk (\<lambda>_. Dir ([] @ map fix_file es)),
            written := written w @ map (\<lambda>(name, child). join tp name) (filter to_write es)\<rparr>"
    have l0: "lookup (tree w) stk = Some (Dir ([] @ es))" using l by simp
    have files: "files_loop tp (map fst (filter (\<lambda>(name, child). \<not> is_dir child) es)) (k, w) = Inr (k1, w1)"
      unfolding k1_def w1_def by (rule files_loop_dir[OF r l0 d v])
    have r1: "resolve w1 tp = Some stk"
      unfolding w1_def by (rule resolve_after_modify[OF r l0 shape_map_fix_file])
    have l1: "lookup (tree w1) stk = Some (Dir ([] @ map fix_file es))"
      using lookup_modify_const[OF l0] by (simp add: w1_def)
    note dirs = dirs_loop[OF ok r1 l1 d v2, of k1]
    have m: "modify (tree w1) stk (\<lambda>_. Dir ([] @ map fix_entry es)) = modify (tree w) stk (\<lambda>_. fix_tree (Dir es))"
      by (simp add: w1_def modify_modify_const fix_tree_Dir del: fix_tree.simps)
    show "walk_loop (walk tp (Dir es)) (k, w) =
          Inr (k + length (changed_paths tp (Dir es)),
               w\<lparr>tree := modify (tree w) stk (\<lambda>_. fix_tree (Dir es)),
                 written := written w @ changed_paths tp (Dir es)\<rparr>)"
      using files dirs m
      by (simp add: changed_paths_Dir k1_def w1_def del: changed_paths.simps fix_tree.simps)
  qed
qed

section \<open>A call of \<^verbatim>\<open>fix_html\<close> and a whole run\<close>

text \<open>
  A path that names a regular file resolves to the place of the file, or to a link whose
  target is that place.
\<close>

lemma stat_DirD:
  assumes "stat w p = Some (stk, root)" "is_dir root"
  shows "resolve w p = Some stk" and "lookup (tree w) stk = Some root"
proof -
  from assms(1) obtain rs n where r: "resolve w p = Some rs" and n: "lookup (tree w) rs = Some n"
    by (auto simp: stat_def split: option.splits)
  have "rs = stk \<and> n = root"
    using assms r n by (cases n) (auto simp: stat_def split: option.splits node.splits)
  with r n show "resolve w p = Some stk" and "lookup (tree w) stk = Some root" by simp_all
qed

lemma stat_FileD:
  assumes "stat w p = Some (stk, File c)"
  shows "lookup (tree w) stk = Some (File c)"
    and "\<exists>rs. resolve w p = Some rs \<and> (rs = stk \<or> lookup (tree w) rs = Some (Link stk))"
proof -
  from assms obtain rs n where r: "resolve w p = Some rs" and n: "lookup (tree w) rs = Some n"
    by (auto simp: stat_def split: option.splits)
  show "lookup (tree w) stk = Some (File c)"
    using assms r n by (cases n) (auto simp: stat_def split: option.splits node.splits)
  have "rs = stk \<or> lookup (tree w) rs = Some (Link stk)"
    using assms r n by (cases n) (auto simp: stat_def split: option.splits node.splits)
  with r show "\<exists>rs. resolve w p = Some rs \<and> (rs = stk \<or> lookup (tree w) rs = Some (Link stk))"
    by blast
qed

lemma stat_after_write:
  assumes st: "stat w p = Some (stk, File c)"
  shows "stat (w\<lparr>tree := modify (tree w) stk (\<lambda>_. File s), written := ws\<rparr>) p = Some (stk, File s)"
proof -
  let ?w' = "w\<lparr>tree := modify (tree w) stk (\<lambda>_. File s), written := ws\<rparr>"
  note l = stat_FileD(1)[OF st]
  from stat_FileD(2)[OF st] obtain rs where r: "resolve w p = Some rs"
    and k: "rs = stk \<or> lookup (tree w) rs = Some (Link stk)" by blast
  have "shape (File s) = shape (File c)" by simp
  from resolve_after_modify[OF r l this] have r': "resolve ?w' p = Some rs" .
  have l': "lookup (tree ?w') stk = Some (File s)"
    using lookup_modify_const[OF l] by simp
  from k show ?thesis
  proof
    assume "rs = stk"
    with r' l' show ?thesis by (simp add: stat_def)
  next
    assume lk: "lookup (tree w) rs = Some (Link stk)"
    have "\<not> (\<exists>x. rs = stk @ x)"
    proof
      assume "\<exists>x. rs = stk @ x"
      then obtain x where x: "rs = stk @ x" by blast
      with lookup_below_leaf[OF l _ lk[unfolded x]] have "x = []" by simp
      with x l lk show False by simp
    qed
    from lookup_modify_other[OF this lk] have "lookup (tree ?w') rs = Some (Link stk)" by simp
    with r' l' show ?thesis by (simp add: stat_def)
  qed
qed

lemma fix_html_read:
  assumes "read_text w path = Inr content"
  shows "\<exists>w'. fix_html path w = Inr (re_sub content \<noteq> content, w')
            \<and> read_text w' path = Inr (re_sub content)
            \<and> (re_sub content = content \<longrightarrow> w' = w)"
proof -
  from assms obtain stk where st: "stat w path = Some (stk, File content)"
    by (auto simp: read_text_def split: option.splits node.splits)
  show ?thesis
  proof (cases "re_sub content = content")
    case True
    then show ?thesis using assms by (simp add: fix_html_def)
  next
    case False
    define w' where "w' = w\<lparr>tree := modify (tree w) stk (\<lambda>_. File (re_sub content)),
                             written := written w @ [path]\<rparr>"
    have f: "fix_html path w = Inr (True, w')"
      using assms st False by (simp add: fix_html_def write_text_def w'_def)
    have "stat w' path = Some (stk, File (re_sub content))"
      unfolding w'_def by (rule stat_after_write[OF st])
    then have "read_text w' path = Inr (re_sub content)"
      by (simp add: read_text_def)
    with f False show ?thesis by simp
  qed
qed

lemma length_changed_paths: "length (changed_paths tp n) = count_changed n"
proof (induction tp n rule: changed_paths.induct)
  case (1 tp c)
  show ?case by simp
next
  case (2 tp t)
  show ?case by simp
next
  case (3 tp es)
  have "length (filter to_write es') + length (concat (map (\<lambda>(name, child). changed_paths (join tp name) child)
                   (filter (\<lambda>(name, child). is_dir child) es')))
      = sum_list (map (\<lambda>(name, child).
                      case child of
                        File c \<Rightarrow> if endswith name ''.html'' \<and> re_sub c \<noteq> c then 1 else 0
                      | Link t \<Rightarrow> 0
                      | Dir es' \<Rightarrow> count_changed child) es')" if "set es' \<subseteq> set es" for es'
    using that
  proof (induction es')
    case Nil
    show ?case by simp
  next
    case (Cons e es')
    obtain name child where e: "e = (name, child)" by (cases e)
    show ?case
    proof (cases child)
      case (File c)
      with Cons e show ?thesis by (simp add: to_write_def)
    next
      case (Link t)
      with Cons e show ?thesis by (simp add: to_write_def)
    next
      case (Dir d)
      have "e \<in> set (filter (\<lambda>(name, child). is_dir child) es)" using Cons.prems e Dir by simp
      from 3[OF this e[symmetric]] have "length (changed_paths (join tp name) child) = count_changed child" .
      with Cons e Dir show ?thesis by (simp add: to_write_def)
    qed
  qed
  from this[of es] show ?case by simp
qed







lemma main_run:
  assumes st: "stat w (dist_dir_of argv) = Some (stk, root)" and d: "is_dir root" and wf: "wf_node root"
  shows "main argv w =
     Inr (\<lparr>stdout = ''Fixed '' @ str (count_changed root) @ '' HTML files in '' @ dist_dir_of argv @ [CHR 0x0A],
           stderr = [], exit_code = 0\<rparr>,
          w\<lparr>tree := modify (tree w) stk (\<lambda>_. fix_tree root),
            written := written w @ changed_paths (dist_dir_of argv) root\<rparr>)"
proof -
  note r = stat_DirD(1)[OF st d] and l = stat_DirD(2)[OF st d]
  have i: "isdir w (dist_dir_of argv)" using st d by (cases root) (simp_all add: isdir_def)
  have o: "os_walk w (dist_dir_of argv) = walk (dist_dir_of argv) root" using st by (simp add: os_walk_def)
  have "walk_loop (walk (dist_dir_of argv) root) (0, w) =
          Inr (0 + length (changed_paths (dist_dir_of argv) root),
               w\<lparr>tree := modify (tree w) stk (\<lambda>_. fix_tree root),
                 written := written w @ changed_paths (dist_dir_of argv) root\<rparr>)"
    using walk_loop_tree[of root] wf r l unfolding tree_ok_def by blast
  then show ?thesis
    using i o by (simp add: main_def Let_def length_changed_paths del: fix_tree.simps changed_paths.simps)
qed

lemma walk_shape: "walk tp (shape n) = walk tp n"
proof (induction tp n rule: walk.induct)
  case (1 tp c)
  show ?case by simp
next
  case (2 tp t)
  show ?case by simp
next
  case (3 tp es)
  let ?sh = "\<lambda>(name, child). (name, shape child)"
  have f1: "filter (\<lambda>(name, child). is_dir child) (map ?sh es') = map ?sh (filter (\<lambda>(name, child). is_dir child) es')" for es'
    by (induction es') (auto simp: is_dir_shape)
  have f2: "filter (\<lambda>(name, child). \<not> is_dir child) (map ?sh es') = map ?sh (filter (\<lambda>(name, child). \<not> is_dir child) es')" for es'
    by (induction es') (auto simp: is_dir_shape)
  have f3: "map fst (map ?sh es') = map fst es'" for es'
    by (induction es') auto
  have f4: "map (\<lambda>(name, child). walk (join tp name) child) (map ?sh (filter (\<lambda>(name, child). is_dir child) es))
      = map (\<lambda>(name, child). walk (join tp name) child) (filter (\<lambda>(name, child). is_dir child) es)"
    using 3 by (auto simp: comp_def)
  show ?case by (simp add: f1 f2 f3 f4 del: map_map)
qed

lemma os_walk_alt:
  "os_walk w tp =
     (case resolve w tp of
        None \<Rightarrow> []
      | Some s \<Rightarrow> (case lookup (tree w) s of Some (Dir es) \<Rightarrow> walk tp (Dir es) | _ \<Rightarrow> []))"
  by (auto simp: os_walk_def stat_def split: option.splits node.splits)

lemma os_walk_fix_html:
  assumes "fix_html p w = Inr (b, w')"
  shows "os_walk w' tp = os_walk w tp"
proof (cases "w' = w")
  case True
  then show ?thesis by simp
next
  case False
  with assms obtain stk c s where st: "stat w p = Some (stk, File c)"
    and w': "w' = w\<lparr>tree := modify (tree w) stk (\<lambda>_. File s), written := written w @ [p]\<rparr>"
    by (auto simp: fix_html_def read_text_def write_text_def Let_def
        split: option.splits node.splits if_splits sum.splits)
  note l = stat_FileD(1)[OF st]
  have "shape (File s) = shape (File c)" by simp
  from shape_modify[OF l this] have sh: "shape (tree w') = shape (tree w)" by (simp add: w')
  have cw: "cwd w' = cwd w" by (simp add: w')
  have r: "resolve w' tp = resolve w tp" by (rule resolve_shape[OF sh cw])
  show ?thesis
  proof (cases "resolve w tp")
    case None
    with r show ?thesis by (simp add: os_walk_alt)
  next
    case (Some s')
    have m: "map_option shape (lookup (tree w') s') = map_option shape (lookup (tree w) s')"
      using lookup_shape[of "tree w'" s'] lookup_shape[of "tree w" s'] by (simp only: sh)
    show ?thesis
    proof (cases "lookup (tree w) s'")
      case None
      with m show ?thesis using r Some by (simp add: os_walk_alt)
    next
      case n: (Some n)
      with m obtain n' where n': "lookup (tree w') s' = Some n'" "shape n' = shape n" by auto
      have wk: "walk tp n' = walk tp n" using walk_shape[of tp n'] walk_shape[of tp n] n'(2) by simp
      have "(case n' of Dir es \<Rightarrow> walk tp (Dir es) | _ \<Rightarrow> []) = walk tp n'" by (cases n') simp_all
      moreover have "(case n of Dir es \<Rightarrow> walk tp (Dir es) | _ \<Rightarrow> []) = walk tp n" by (cases n) simp_all
      ultimately show ?thesis using r Some n n'(1) wk by (simp add: os_walk_alt)
    qed
  qed
qed

text \<open>The check of \<^verbatim>\<open>main\<close> succeeds exactly on the paths that name a directory.\<close>

lemma isdir_iff: "isdir w p \<longleftrightarrow> (\<exists>stk root. stat w p = Some (stk, root) \<and> is_dir root)"
proof (cases "stat w p")
  case None
  then show ?thesis by (simp add: isdir_def)
next
  case (Some a)
  obtain stk root where "a = (stk, root)" by (cases a)
  with Some show ?thesis by (cases root) (simp_all add: isdir_def)
qed

section \<open>An exported site\<close>

text \<open>
  The scenario of the specification: \<^verbatim>\<open>index.html\<close> holds one entry script tag. Beside it
  are a script with the same text, a page without a tag and a page in a subdirectory.
\<close>

definition example_root :: node where
  \<open>example_root =
     Dir [(''index.html'', File ''<script src="/app.js" defer></script>''),
          (''app.js'', File ''<script src="/x.js" defer>''),
          (''sub'', Dir [(''about.html'', File ''<p>''),
                        (''b.html'', File ''<script src="/b.js" defer>'')])]\<close>

definition example_world :: world where
  "example_world =
     \<lparr>tree = Dir [(''srv'', Dir [(''dist'', example_root)])], cwd = [''srv''], written = []\<rparr>"

definition example_fixed :: node where
  \<open>example_fixed =
     Dir [(''srv'', Dir [(''dist'',
       Dir [(''index.html'', File ''<script type="module" src="/app.js" defer></script>''),
            (''app.js'', File ''<script src="/x.js" defer>''),
            (''sub'', Dir [(''about.html'', File ''<p>''),
                          (''b.html'', File ''<script type="module" src="/b.js" defer>'')])])])]\<close>

text \<open>A second world, where the same page lies in the root directory.\<close>

definition example_world2 :: world where
  \<open>example_world2 =
     \<lparr>tree = Dir [(''index.html'', File ''<script src="/app.js" defer></script>'')],
      cwd = [], written = [''earlier.html'']\<rparr>\<close>


lemma scenario_first_run:
  \<open>main [''fix-web-export.py'', ''dist''] example_world =
     Inr (\<lparr>stdout = ''Fixed 2 HTML files in dist'' @ [CHR 0x0A], stderr = [], exit_code = 0\<rparr>,
          \<lparr>tree = example_fixed, cwd = [''srv''],
            written = [''dist/index.html'', ''dist/sub/b.html'']\<rparr>)\<close>
  by code_simp

lemma scenario_second_run:
  \<open>main [''fix-web-export.py'', ''dist'']
       \<lparr>tree = example_fixed, cwd = [''srv''], written = []\<rparr> =
     Inr (\<lparr>stdout = ''Fixed 0 HTML files in dist'' @ [CHR 0x0A], stderr = [], exit_code = 0\<rparr>,
          \<lparr>tree = example_fixed, cwd = [''srv''], written = []\<rparr>)\<close>
  by code_simp

section \<open>The claims of the specification\<close>

text \<open>
  Claim C1. Applied to any string, the substitution replaces every occurrence of
  \<^verbatim>\<open><script src="\<close>, one or more characters that are not double quotes (the URL) and
  \<^verbatim>\<open>" defer>\<close> by \<^verbatim>\<open><script type="module" src="URL" defer>\<close> with the same URL, and changes
  nothing else. The occurrences are the matches the left-to-right scan meets: the empty
  content gives the empty result; where the content starts with an occurrence, the result
  starts with the rewritten tag, URL unchanged, and goes on with the substitution of what
  follows the occurrence; where it does not, the first character is copied and the
  substitution goes on with the next one.
\<close>

theorem re_sub_replaces_matches:
  \<open>re_sub [] = [] \<and>
   (url \<noteq> [] \<and> CHR ''"'' \<notin> set url \<longrightarrow>
      re_sub (''<script src="'' @ url @ ''" defer>'' @ rest) =
        ''<script type="module" src="'' @ url @ ''" defer>'' @ re_sub rest) \<and>
   ((\<nexists>u r. c # cs = ''<script src="'' @ u @ ''" defer>'' @ r \<and> u \<noteq> [] \<and> CHR ''"'' \<notin> set u) \<longrightarrow>
      re_sub (c # cs) = c # re_sub cs)\<close>
proof (intro conjI impI)
  show "re_sub [] = []" by (rule re_sub.simps(1))
next
  assume a: \<open>url \<noteq> [] \<and> CHR ''"'' \<notin> set url\<close>
  show \<open>re_sub (''<script src="'' @ url @ ''" defer>'' @ rest) =
        ''<script type="module" src="'' @ url @ ''" defer>'' @ re_sub rest\<close>
    by (rule re_sub_match[OF conjunct1[OF a] conjunct2[OF a]])
next
  assume n: \<open>\<nexists>u r. c # cs = ''<script src="'' @ u @ ''" defer>'' @ r \<and> u \<noteq> [] \<and> CHR ''"'' \<notin> set u\<close>
  have "match_at (c # cs) = None"
  proof (cases "match_at (c # cs)")
    case None
    then show ?thesis .
  next
    case (Some m)
    obtain u r where "m = (u, r)" by (cases m)
    with Some have "match_at (c # cs) = Some (u, r)" by simp
    note e = match_at_iff[THEN iffD1, OF this]
    have \<open>\<exists>u r. c # cs = ''<script src="'' @ u @ ''" defer>'' @ r \<and> u \<noteq> [] \<and> CHR ''"'' \<notin> set u\<close>
      by (rule exI[of _ u], rule exI[of _ r], rule e)
    with n show ?thesis by (rule notE)
  qed
  then show "re_sub (c # cs) = c # re_sub cs" by (rule re_sub_no_match)
qed


theorem re_sub_replaces_matches_witness:
  \<open>re_sub ''<script src="/app.js" defer>x'' = ''<script type="module" src="/app.js" defer>x''\<close>
proof -
  have 1: \<open>''/app.js'' \<noteq> [] \<and> CHR ''"'' \<notin> set ''/app.js''\<close> by simp
  have 2: \<open>\<nexists>u r. CHR ''x'' # [] = ''<script src="'' @ u @ ''" defer>'' @ r \<and> u \<noteq> [] \<and> CHR ''"'' \<notin> set u\<close>
    by simp
  note t = re_sub_replaces_matches[of "''/app.js''" "''x''" "CHR ''x''" "[]"]
  note a = t[THEN conjunct2, THEN conjunct1, THEN mp, OF 1]
  note b = t[THEN conjunct2, THEN conjunct2, THEN mp, OF 2]
  note c = t[THEN conjunct1]
  show ?thesis using a b c by simp
qed

text \<open>
  Claim C2. When the root path names no existing directory, the program prints
  \<^verbatim>\<open>Error: directory '<rootDir>' not found\<close> to the error stream and nothing to the
  output stream, exits with status 1, and leaves the world as it was: no file is changed
  and none is opened for writing.
\<close>

theorem main_root_not_found:
  "\<not> isdir w (dist_dir_of argv) \<Longrightarrow>
     main argv w =
       Inr (\<lparr>stdout = [],
             stderr = ''Error: directory '' @ [CHR 0x27] @ dist_dir_of argv @ [CHR 0x27]
                        @ '' not found'' @ [CHR 0x0A],
             exit_code = 1\<rparr>, w)"
  by (simp add: main_def)

theorem main_root_not_found_witness:
  "\<not> isdir example_world (dist_dir_of [''fix-web-export.py'', ''build'']) \<and>
   main [''fix-web-export.py'', ''build''] example_world =
       Inr (\<lparr>stdout = [],
             stderr = ''Error: directory '' @ [CHR 0x27]
                        @ dist_dir_of [''fix-web-export.py'', ''build''] @ [CHR 0x27]
                        @ '' not found'' @ [CHR 0x0A],
             exit_code = 1\<rparr>, example_world)"
proof -
  have h: "\<not> isdir example_world (dist_dir_of [''fix-web-export.py'', ''build''])"
    by code_simp
  show ?thesis by (rule conjI[OF h main_root_not_found[OF h]])
qed

text \<open>
  Claim C3, as stated: the substitution is idempotent on every content. It is not. In
  \<^verbatim>\<open><script src="<script src=" defer>" defer>\<close> the first pass matches from the start, with the
  URL \<^verbatim>\<open><script src=\<close>; the tag it writes no longer starts a match, which uncovers the
  occurrence that starts inside the URL, and the second pass rewrites that one.
\<close>

theorem re_sub_not_idempotent:
  \<open>re_sub (re_sub ''<script src="<script src=" defer>" defer>'') \<noteq>
   re_sub ''<script src="<script src=" defer>" defer>''\<close>
  by code_simp

text \<open>
  Claim C3, amended: the substitution is idempotent on every content in which no URL
  captured by a match ends with \<^verbatim>\<open><script src=\<close>.
\<close>

theorem re_sub_idempotent:
  \<open>list_all (\<lambda>u. \<not> endswith u ''<script src='') (re_findall content) \<Longrightarrow>
     re_sub (re_sub content) = re_sub content\<close>
  by (rule re_sub_idem)

theorem re_sub_idempotent_witness:
  \<open>list_all (\<lambda>u. \<not> endswith u ''<script src='') (re_findall ''<script src="/app.js" defer>'') \<and>
   re_sub (re_sub ''<script src="/app.js" defer>'') = re_sub ''<script src="/app.js" defer>''\<close>
proof -
  have h: \<open>list_all (\<lambda>u. \<not> endswith u ''<script src='')
             (re_findall ''<script src="/app.js" defer>'')\<close>
    by code_simp
  show ?thesis by (rule conjI[OF h re_sub_idempotent[OF h]])
qed

text \<open>
  Claim C4. For a file that holds \<open>content\<close>, \<^verbatim>\<open>fix_html\<close> returns true exactly when the
  pattern occurs somewhere in the content. The file then holds the substitution of the
  content, made in the one pass of \<open>re_sub\<close>. When it returns false the content has no
  occurrence, the substitution is the content itself and the world is as it was.
\<close>

theorem fix_html_changed_iff_match:
  assumes "read_text w path = Inr content"
  shows \<open>\<exists>changed w'.
           fix_html path w = Inr (changed, w') \<and>
           (changed \<longleftrightarrow>
              (\<exists>a u b. content = a @ ''<script src="'' @ u @ ''" defer>'' @ b \<and>
                        u \<noteq> [] \<and> CHR ''"'' \<notin> set u)) \<and>
           read_text w' path = Inr (re_sub content) \<and>
           (\<not> changed \<longrightarrow> w' = w \<and> re_sub content = content)\<close>
proof -
  from fix_html_read[OF assms] obtain w' where
    f: "fix_html path w = Inr (re_sub content \<noteq> content, w')"
    and r: "read_text w' path = Inr (re_sub content)"
    and u: "re_sub content = content \<longrightarrow> w' = w"
    by blast
  show ?thesis
    apply (rule exI[of _ "re_sub content \<noteq> content"])
    apply (rule exI[of _ w'])
    apply (intro conjI)
       apply (rule f)
      apply (rule re_sub_changed_iff)
     apply (rule r)
    using u apply simp
    done
qed

theorem fix_html_changed_iff_match_witness:
  \<open>read_text example_world ''dist/index.html'' = Inr ''<script src="/app.js" defer></script>'' \<and>
   (\<exists>changed w'.
           fix_html ''dist/index.html'' example_world = Inr (changed, w') \<and>
           (changed \<longleftrightarrow>
              (\<exists>a u b. ''<script src="/app.js" defer></script>'' =
                          a @ ''<script src="'' @ u @ ''" defer>'' @ b \<and>
                        u \<noteq> [] \<and> CHR ''"'' \<notin> set u)) \<and>
           read_text w' ''dist/index.html'' = Inr (re_sub ''<script src="/app.js" defer></script>'') \<and>
           (\<not> changed \<longrightarrow> w' = example_world \<and>
              re_sub ''<script src="/app.js" defer></script>'' =
                ''<script src="/app.js" defer></script>''))\<close>
proof -
  have h: \<open>read_text example_world ''dist/index.html'' =
             Inr ''<script src="/app.js" defer></script>''\<close>
    by code_simp
  show ?thesis by (rule conjI[OF h fix_html_changed_iff_match[OF h]])
qed

text \<open>
  Claim C5. When the root path names a directory (of a well-formed tree: entry names as
  a file system has them, no entry named \<^verbatim>\<open>*.html\<close> a link), the run ends without an
  exception: it prints the one line \<^verbatim>\<open>Fixed <count> HTML files in <rootDir>\<close>
  to the output stream and nothing to the error stream, and exits with status 0. The
  count is the number of files below the root that are named \<^verbatim>\<open>*.html\<close> and that the
  substitution changes, the files for which \<^verbatim>\<open>fix_html\<close> returns true; it may be zero.
\<close>

theorem main_reports_count:
  assumes "stat w (dist_dir_of argv) = Some (stk, root)" "is_dir root" "wf_node root"
  shows "\<exists>w'. main argv w =
           Inr (\<lparr>stdout = ''Fixed '' @ str (count_changed root) @ '' HTML files in ''
                            @ dist_dir_of argv @ [CHR 0x0A],
                 stderr = [], exit_code = 0\<rparr>, w')"
  using main_run[OF assms] by blast

theorem main_reports_count_witness:
  "stat example_world (dist_dir_of [''fix-web-export.py'']) = Some ([''srv'', ''dist''], example_root) \<and>
   is_dir example_root \<and> wf_node example_root \<and>
   count_changed example_root = 2 \<and> str 2 = ''2'' \<and> str 0 = ''0'' \<and> str 120 = ''120'' \<and>
   (\<exists>w'. main [''fix-web-export.py''] example_world =
           Inr (\<lparr>stdout = ''Fixed '' @ str (count_changed example_root) @ '' HTML files in ''
                            @ dist_dir_of [''fix-web-export.py''] @ [CHR 0x0A],
                 stderr = [], exit_code = 0\<rparr>, w'))"
proof -
  have h1: "stat example_world (dist_dir_of [''fix-web-export.py'']) =
              Some ([''srv'', ''dist''], example_root)"
    by code_simp
  have h2: "is_dir example_root" by code_simp
  have h3: "wf_node example_root" by code_simp
  have c: "count_changed example_root = 2" by code_simp
  have s: "str 2 = ''2''" "str 0 = ''0''" "str 120 = ''120''" by code_simp+
  show ?thesis by (intro conjI h1 h2 h3 c s main_reports_count[OF h1 h2 h3])
qed




text \<open>
  Claim C7. Invoked with no positional argument (the argument vector holds the program
  name at most), the program uses the root directory \<^verbatim>\<open>dist\<close>: it does what it does when
  \<^verbatim>\<open>dist\<close> is given.
\<close>

theorem default_root_is_dist:
  "dist_dir_of [] = ''dist'' \<and> dist_dir_of [prog] = ''dist'' \<and>
   main [prog] w = main [prog, ''dist''] w"
  by (simp add: main_def dist_dir_of_def)

text \<open>
  Claim C8. The flag \<^verbatim>\<open>fix_html\<close> returns and the content it leaves in the file are
  functions of the content it reads: two calls that read equal contents, in any two
  worlds and under any two paths, return the same flag and leave equal contents.
\<close>

theorem fix_html_deterministic:
  assumes "read_text w1 p1 = Inr content" "read_text w2 p2 = Inr content"
  shows "\<exists>changed new w1' w2'.
           fix_html p1 w1 = Inr (changed, w1') \<and> fix_html p2 w2 = Inr (changed, w2') \<and>
           read_text w1' p1 = Inr new \<and> read_text w2' p2 = Inr new"
proof -
  from fix_html_read[OF assms(1)] obtain w1' where
    1: "fix_html p1 w1 = Inr (re_sub content \<noteq> content, w1')"
      "read_text w1' p1 = Inr (re_sub content)"
    by blast
  from fix_html_read[OF assms(2)] obtain w2' where
    2: "fix_html p2 w2 = Inr (re_sub content \<noteq> content, w2')"
      "read_text w2' p2 = Inr (re_sub content)"
    by blast
  from 1 2 show ?thesis by blast
qed

theorem fix_html_deterministic_witness:
  \<open>read_text example_world ''dist/index.html'' = Inr ''<script src="/app.js" defer></script>'' \<and>
   read_text example_world2 ''/index.html'' = Inr ''<script src="/app.js" defer></script>'' \<and>
   (\<exists>changed new w1' w2'.
           fix_html ''dist/index.html'' example_world = Inr (changed, w1') \<and>
           fix_html ''/index.html'' example_world2 = Inr (changed, w2') \<and>
           read_text w1' ''dist/index.html'' = Inr new \<and> read_text w2' ''/index.html'' = Inr new)\<close>
proof -
  have h1: \<open>read_text example_world ''dist/index.html'' =
              Inr ''<script src="/app.js" defer></script>''\<close>
    by code_simp
  have h2: \<open>read_text example_world2 ''/index.html'' =
              Inr ''<script src="/app.js" defer></script>''\<close>
    by code_simp
  show ?thesis by (intro conjI h1 h2 fix_html_deterministic[OF h1 h2])
qed

text \<open>
  Claim C9. The result is the content's length plus 14 characters (the inserted
  \<^verbatim>\<open>type="module" \<close>) for each replaced occurrence, so it is never shorter than the content.
\<close>

theorem re_sub_length:
  "length (re_sub content) = length content + 14 * length (re_findall content) \<and>
   length content \<le> length (re_sub content)"
  by (simp add: length_re_sub)

text \<open>
  Claim C10. Arguments after the first positional argument are ignored: with two or
  more positional arguments the program takes the first as the root directory and does
  what it does when only that one is given.
\<close>

theorem extra_arguments_ignored:
  "dist_dir_of (prog # d # extra) = d \<and> main (prog # d # extra) w = main [prog, d] w"
  by (simp add: main_def dist_dir_of_def)

end
